theory Spec2Isabelle
  imports Complex_Main "HOL-Library.Word" "HOL-Library.Multiset"
begin

section \<open>Machine model\<close>

text \<open>
  The engine is the class template \<^verbatim>\<open>Headless::Logic::GA::Trivial<C>\<close>; the two example
  mutators are those of \<^verbatim>\<open>examples/geneticalgorithm/trivial.cpp\<close>.

  \<^item> \<^verbatim>\<open>unsigned int\<close> is a 32-bit word: \<^verbatim>\<open>lo - 1\<close>, \<^verbatim>\<open>hi + 1\<close> and \<^verbatim>\<open>_count - 1\<close> wrap around.
  \<^item> A score is a \<^verbatim>\<open>double\<close>: NaN, one of the two infinities, or a finite value, which is
    a real. The engine only compares and adds scores. The comparisons are those of
    IEEE 754, so every comparison with NaN is false; the sum of two finite values is exact
    (no rounding and no overflow). The thresholds, the draws and the elite fraction never
    meet a score and are reals.
  \<^item> An array made by \<^verbatim>\<open>new T[n]\<close> with an \<^verbatim>\<open>unsigned int n\<close> is a list of fewer than
    \<open>2 ^ 32\<close> cells. An access outside the cells is undefined behaviour in C++; the model
    ends the run there with \<open>OutOfBounds\<close>. Reading a cell that was never written is
    \<open>Uninitialized\<close>; a \<^verbatim>\<open>double\<close> that \<^verbatim>\<open>unsigned int\<close> cannot hold is \<open>Unrepresentable\<close>.
\<close>

type_synonym uint = "32 word"

datatype error = OutOfBounds | Uninitialized | Unrepresentable

definition inb :: "'a list \<Rightarrow> uint \<Rightarrow> bool" where
  "inb xs i \<longleftrightarrow> unat i < length xs \<and> length xs < 2 ^ 32"

lemma inb_unat_Suc: "inb xs i \<Longrightarrow> unat (i + 1) = Suc (unat i)"
proof -
  assume a: "inb xs i"
  have "unat i + unat (1 :: uint) < 2 ^ LENGTH(32)"
    using a by (simp add: inb_def)
  then have "unat (i + 1) = unat i + unat (1 :: uint)"
    by (simp only: unat_add_lem [THEN iffD1])
  then show ?thesis by simp
qed

lemma unat_pred: "i \<noteq> 0 \<Longrightarrow> unat (i - 1) = unat i - 1" for i :: uint
  by (rule unat_minus_one)

lemma unat_Suc_below: "unat p < unat h \<Longrightarrow> unat (p + 1) = Suc (unat p)" for p h :: uint
proof -
  assume a: "unat p < unat h"
  have "unat h < 2 ^ LENGTH(32)" by (rule unsigned_less)
  then have "unat p + unat (1 :: uint) < 2 ^ LENGTH(32)" using a by simp
  then have "unat (p + 1) = unat p + unat (1 :: uint)"
    by (simp only: unat_add_lem [THEN iffD1])
  then show ?thesis by simp
qed

subsection \<open>Scores\<close>

text \<open>
  The values of a \<^verbatim>\<open>double\<close>, the comparison \<^verbatim>\<open><\<close> and the addition. \<^verbatim>\<open>a > b\<close> is \<open>b < a\<close>, and
  \<open>a \<le> b\<close> holds when neither is NaN and \<open>b < a\<close> does not. The order is not linear: NaN
  is below nothing, above nothing and not equal-or-below itself.
\<close>

datatype double = NaN | MInf | Fin real | PInf

fun lt_double :: "double \<Rightarrow> double \<Rightarrow> bool" where
  "lt_double NaN b = False"
| "lt_double a NaN = False"
| "lt_double MInf MInf = False"
| "lt_double MInf b = True"
| "lt_double (Fin x) MInf = False"
| "lt_double (Fin x) (Fin y) = (x < y)"
| "lt_double (Fin x) PInf = True"
| "lt_double PInf b = False"

fun add_double :: "double \<Rightarrow> double \<Rightarrow> double" where
  "add_double NaN b = NaN"
| "add_double a NaN = NaN"
| "add_double (Fin x) (Fin y) = Fin (x + y)"
| "add_double PInf MInf = NaN"
| "add_double MInf PInf = NaN"
| "add_double PInf b = PInf"
| "add_double a PInf = PInf"
| "add_double MInf b = MInf"
| "add_double a MInf = MInf"

instantiation double :: "{ord, comm_monoid_add}"
begin

definition less_double :: "double \<Rightarrow> double \<Rightarrow> bool" where
  "less_double a b = lt_double a b"

definition less_eq_double :: "double \<Rightarrow> double \<Rightarrow> bool" where
  "less_eq_double a b \<longleftrightarrow> a \<noteq> NaN \<and> b \<noteq> NaN \<and> \<not> lt_double b a"

definition zero_double :: double where
  "zero_double = Fin 0"

definition plus_double :: "double \<Rightarrow> double \<Rightarrow> double" where
  "plus_double a b = add_double a b"

instance
proof
  fix a b c :: double
  show "a + b + c = a + (b + c)"
    unfolding plus_double_def by (cases a; cases b; cases c) simp_all
  show "a + b = b + a"
    unfolding plus_double_def by (cases a; cases b) simp_all
  show "0 + a = a"
    unfolding plus_double_def zero_double_def by (cases a) simp_all
qed

end

lemma less_double_simps [simp]:
  "\<not> NaN < b" "\<not> a < NaN" "Fin x < Fin y \<longleftrightarrow> x < y"
  "MInf < Fin y" "MInf < PInf" "Fin x < PInf" "\<not> a < MInf" "\<not> PInf < b"
  for a b :: double
  unfolding less_double_def by (cases a; cases b; simp)+

lemma less_eq_double_simps [simp]:
  "\<not> NaN \<le> b" "\<not> a \<le> NaN" "Fin x \<le> Fin y \<longleftrightarrow> x \<le> y"
  "MInf \<le> Fin y" "MInf \<le> PInf" "Fin x \<le> PInf" "MInf \<le> MInf" "PInf \<le> PInf"
  "\<not> Fin x \<le> MInf" "\<not> PInf \<le> Fin y" "\<not> PInf \<le> MInf"
  for a b :: double
  unfolding less_eq_double_def by (auto simp: not_less)

lemma plus_double_simps [simp]:
  "NaN + b = NaN" "a + NaN = NaN" "Fin x + Fin y = Fin (x + y)"
  for a b :: double
  unfolding plus_double_def by (cases a; cases b; simp)+

lemma double_less_asym: "a < b \<Longrightarrow> \<not> b < a" for a b :: double
  by (cases a; cases b) simp_all

lemma double_less_irrefl [simp]: "\<not> a < a" for a :: double
  by (cases a) simp_all

lemma double_not_less: "a \<noteq> NaN \<Longrightarrow> b \<noteq> NaN \<Longrightarrow> \<not> b < a \<longleftrightarrow> a \<le> b" for a b :: double
  by (simp add: less_eq_double_def less_double_def)

lemma double_le_trans: "a \<le> b \<Longrightarrow> b \<le> c \<Longrightarrow> a \<le> c" for a b c :: double
  by (cases a; cases b; cases c) simp_all

lemma double_le_refl: "a \<noteq> NaN \<Longrightarrow> a \<le> a" for a :: double
  by (cases a) simp_all

lemma double_le_not_NaN: "a \<le> b \<Longrightarrow> a \<noteq> NaN \<and> b \<noteq> NaN" for a b :: double
  by (simp add: less_eq_double_def)

section \<open>The engine\<close>

text \<open>
  The fields of the class: the candidate pool (handles \<open>'h\<close> stand for the pointers
  \<^verbatim>\<open>C*\<close>), the pool score, the buffer for the reversed pool score and the pool count.
  A cell of \<^verbatim>\<open>_reverse\<close> holds \<open>None\<close> until it is written.
\<close>

record 'h trivial =
  pool :: "'h list"
  score :: "double list"
  reverse :: "double option list"
  count_pool :: uint

text \<open>
  The constructor allocates the three arrays with \<open>pSize\<close> cells each and writes none of
  them. The cells of \<^verbatim>\<open>_pool\<close> and \<^verbatim>\<open>_score\<close> are all written (by \<^verbatim>\<open>reserve\<close>, by
  \<^verbatim>\<open>evaluate\<close>) before any of them is read, so their indeterminate content is an argument.
  \<open>allocated\<close> says that an engine has the shape the constructor gives it.
\<close>

definition Trivial :: "uint \<Rightarrow> 'h list \<Rightarrow> double list \<Rightarrow> 'h trivial" where
  "Trivial pSize p sc =
     \<lparr>pool = p, score = sc, reverse = replicate (unat pSize) None, count_pool = pSize\<rparr>"

definition allocated :: "'h trivial \<Rightarrow> bool" where
  "allocated s \<longleftrightarrow>
     length (pool s) = unat (count_pool s) \<and> length (score s) = unat (count_pool s) \<and>
     length (reverse s) = unat (count_pool s)"

subsection \<open>Ranking: \<^verbatim>\<open>partition\<close> and \<^verbatim>\<open>qsort\<close>\<close>

text \<open>
  The two inner loops of \<^verbatim>\<open>partition\<close>:
  \<^verbatim>\<open>do { ++i; } while(_score[i] < pivot);\<close> and \<^verbatim>\<open>do { --j; } while(_score[j] > pivot);\<close>.
\<close>

function scan_up :: "double list \<Rightarrow> double \<Rightarrow> uint \<Rightarrow> error + uint" where
  "scan_up sc pivot i =
     (let i' = i + 1 in
      if inb sc i' then (if sc ! unat i' < pivot then scan_up sc pivot i' else Inr i')
      else Inl OutOfBounds)"
  by pat_completeness auto

function scan_down :: "double list \<Rightarrow> double \<Rightarrow> uint \<Rightarrow> error + uint" where
  "scan_down sc pivot j =
     (let j' = j - 1 in
      if inb sc j' then (if sc ! unat j' > pivot then scan_down sc pivot j' else Inr j')
      else Inl OutOfBounds)"
  by pat_completeness auto

termination scan_up
proof (relation "measure (\<lambda>(sc, pivot, i). if inb sc (i + 1) then length sc - unat (i + 1) else 0)")
  show "wf (measure (\<lambda>(sc, pivot, i). if inb sc (i + 1) then length sc - unat (i + 1) else 0))"
    by simp
next
  fix sc :: "double list" and pivot :: double and i x :: uint
  assume x: "x = i + 1" and b: "inb sc x"
  have "unat (x + 1) = Suc (unat x)" using b by (rule inb_unat_Suc)
  moreover have "unat x < length sc" using b by (simp add: inb_def)
  ultimately show "((sc, pivot, x), sc, pivot, i)
       \<in> measure (\<lambda>(sc, pivot, i). if inb sc (i + 1) then length sc - unat (i + 1) else 0)"
    using x b by auto
qed

termination scan_down
proof (relation "measure (\<lambda>(sc, pivot, j). if inb sc (j - 1) then Suc (unat (j - 1)) else 0)")
  show "wf (measure (\<lambda>(sc, pivot, j). if inb sc (j - 1) then Suc (unat (j - 1)) else 0))"
    by simp
next
  fix sc :: "double list" and pivot :: double and j x :: uint
  assume x: "x = j - 1" and b: "inb sc x"
  show "((sc, pivot, x), sc, pivot, j)
       \<in> measure (\<lambda>(sc, pivot, j). if inb sc (j - 1) then Suc (unat (j - 1)) else 0)"
  proof (cases "x = 0")
    case True
    have "\<not> inb sc (0 - 1 :: uint)" by (simp add: inb_def unsigned_minus_1_eq_mask mask_eq_exp_minus_1)
    then show ?thesis using True x b by simp
  next
    case False
    then have "unat (x - 1) = unat x - 1" by (rule unat_pred)
    moreover have "unat x \<noteq> 0" using False by (simp add: unat_eq_0)
    ultimately show ?thesis using x b by auto
  qed
qed

declare scan_up.simps [simp del] scan_down.simps [simp del]

lemma scan_up_Inr:
  "scan_up sc pv i = Inr r \<Longrightarrow>
     inb sc r \<and> unat (i + 1) \<le> unat r \<and> \<not> sc ! unat r < pv \<and>
     (\<forall>k. unat (i + 1) \<le> k \<and> k < unat r \<longrightarrow> sc ! k < pv)"
proof (induction sc pv i rule: scan_up.induct)
  case (1 sc pivot i)
  from "1.prems" have b: "inb sc (i + 1)"
    by (subst (asm) scan_up.simps) (simp add: Let_def split: if_splits)
  show ?case
  proof (cases "sc ! unat (i + 1) < pivot")
    case True
    with b "1.prems" have r: "scan_up sc pivot (i + 1) = Inr r"
      by (subst (asm) scan_up.simps) (simp add: Let_def)
    have ih: "inb sc r \<and> unat (i + 1 + 1) \<le> unat r \<and> \<not> sc ! unat r < pivot \<and>
        (\<forall>k. unat (i + 1 + 1) \<le> k \<and> k < unat r \<longrightarrow> sc ! k < pivot)"
      using "1.IH" [OF refl b True r] .
    have s: "unat (i + 1 + 1) = Suc (unat (i + 1))" using b by (rule inb_unat_Suc)
    have "\<forall>k. unat (i + 1) \<le> k \<and> k < unat r \<longrightarrow> sc ! k < pivot"
    proof (intro allI impI)
      fix k assume k: "unat (i + 1) \<le> k \<and> k < unat r"
      show "sc ! k < pivot"
      proof (cases "k = unat (i + 1)")
        case True then show ?thesis using \<open>sc ! unat (i + 1) < pivot\<close> by simp
      next
        case False then show ?thesis using ih k s by simp
      qed
    qed
    then show ?thesis using ih s by simp
  next
    case False
    with b "1.prems" have "r = i + 1"
      by (subst (asm) scan_up.simps) (simp add: Let_def)
    then show ?thesis using b False by auto
  qed
qed

lemma scan_up_total:
  "inb sc (i + 1) \<Longrightarrow> unat (i + 1) \<le> k \<Longrightarrow> k < length sc \<Longrightarrow> \<not> sc ! k < pv \<Longrightarrow>
     \<exists>r. scan_up sc pv i = Inr r \<and> unat r \<le> k"
proof (induction sc pv i rule: scan_up.induct)
  case (1 sc pivot i)
  show ?case
  proof (cases "sc ! unat (i + 1) < pivot")
    case True
    have s: "unat (i + 1 + 1) = Suc (unat (i + 1))" using "1.prems"(1) by (rule inb_unat_Suc)
    have ne: "k \<noteq> unat (i + 1)" using True "1.prems"(4) by auto
    then have le: "unat (i + 1 + 1) \<le> k" using s "1.prems"(2) by simp
    then have b': "inb sc (i + 1 + 1)" using "1.prems"(1,3) by (simp add: inb_def)
    have "\<exists>r. scan_up sc pivot (i + 1) = Inr r \<and> unat r \<le> k"
      using "1.IH" [OF refl "1.prems"(1) True b' le "1.prems"(3,4)] .
    then show ?thesis using True "1.prems"(1)
      by (subst scan_up.simps) (simp add: Let_def)
  next
    case False
    then show ?thesis using "1.prems"(1,2)
      by (subst scan_up.simps) (simp add: Let_def)
  qed
qed

lemma scan_down_Inr:
  "scan_down sc pv j = Inr r \<Longrightarrow>
     inb sc r \<and> unat r \<le> unat (j - 1) \<and> \<not> pv < sc ! unat r \<and>
     (\<forall>k. unat r < k \<and> k \<le> unat (j - 1) \<longrightarrow> pv < sc ! k)"
proof (induction sc pv j rule: scan_down.induct)
  case (1 sc pivot j)
  from "1.prems" have b: "inb sc (j - 1)"
    by (subst (asm) scan_down.simps) (simp add: Let_def split: if_splits)
  show ?case
  proof (cases "pivot < sc ! unat (j - 1)")
    case True
    with b "1.prems" have r: "scan_down sc pivot (j - 1) = Inr r"
      by (subst (asm) scan_down.simps) (simp add: Let_def)
    have ih: "inb sc r \<and> unat r \<le> unat (j - 1 - 1) \<and> \<not> pivot < sc ! unat r \<and>
        (\<forall>k. unat r < k \<and> k \<le> unat (j - 1 - 1) \<longrightarrow> pivot < sc ! k)"
      using "1.IH" [OF refl b True r] .
    from r have "inb sc (j - 1 - 1)"
      by (subst (asm) scan_down.simps) (simp add: Let_def split: if_splits)
    have nz: "j - 1 \<noteq> 0"
    proof
      assume "j - 1 = 0"
      then have "j - 1 - 1 = (-1 :: uint)" by simp
      then have "\<not> inb sc (j - 1 - 1)"
        by (simp add: inb_def unsigned_minus_1_eq_mask mask_eq_exp_minus_1)
      then show False using \<open>inb sc (j - 1 - 1)\<close> by simp
    qed
    then have s: "unat (j - 1 - 1) = unat (j - 1) - 1" by (rule unat_pred)
    have pos: "0 < unat (j - 1)" using nz by (simp add: unat_gt_0)
    have "\<forall>k. unat r < k \<and> k \<le> unat (j - 1) \<longrightarrow> pivot < sc ! k"
    proof (intro allI impI)
      fix k assume k: "unat r < k \<and> k \<le> unat (j - 1)"
      show "pivot < sc ! k"
      proof (cases "k = unat (j - 1)")
        case True then show ?thesis using \<open>pivot < sc ! unat (j - 1)\<close> by simp
      next
        case False then show ?thesis using ih k s by auto
      qed
    qed
    then show ?thesis using ih s by auto
  next
    case False
    with b "1.prems" have "r = j - 1"
      by (subst (asm) scan_down.simps) (simp add: Let_def)
    then show ?thesis using b False by auto
  qed
qed

lemma scan_down_total:
  "inb sc (j - 1) \<Longrightarrow> k \<le> unat (j - 1) \<Longrightarrow> \<not> pv < sc ! k \<Longrightarrow>
     \<exists>r. scan_down sc pv j = Inr r \<and> k \<le> unat r"
proof (induction sc pv j rule: scan_down.induct)
  case (1 sc pivot j)
  show ?case
  proof (cases "pivot < sc ! unat (j - 1)")
    case True
    have ne: "k \<noteq> unat (j - 1)" using True "1.prems"(3) by auto
    then have lt: "k < unat (j - 1)" using "1.prems"(2) by simp
    then have nz: "j - 1 \<noteq> 0" by auto
    then have s: "unat (j - 1 - 1) = unat (j - 1) - 1" by (rule unat_pred)
    have le: "k \<le> unat (j - 1 - 1)" using s lt by simp
    have b': "inb sc (j - 1 - 1)" using "1.prems"(1) s by (auto simp: inb_def)
    have "\<exists>r. scan_down sc pivot (j - 1) = Inr r \<and> k \<le> unat r"
      using "1.IH" [OF refl "1.prems"(1) True b' le "1.prems"(3)] .
    then show ?thesis using True "1.prems"(1)
      by (subst scan_down.simps) (simp add: Let_def)
  next
    case False
    then show ?thesis using "1.prems"(1,2)
      by (subst scan_down.simps) (simp add: Let_def)
  qed
qed

text \<open>The exchange of the cells \<open>i\<close> and \<open>j\<close> of \<^verbatim>\<open>_score\<close> and of \<^verbatim>\<open>_pool\<close>.\<close>

definition exchange :: "'h trivial \<Rightarrow> uint \<Rightarrow> uint \<Rightarrow> error + 'h trivial" where
  "exchange s i j =
     (if inb (score s) i \<and> inb (pool s) i \<and> inb (score s) j \<and> inb (pool s) j then
        (let sc = score s ! unat i; candidate = pool s ! unat i in
         Inr (s\<lparr>score := (score s)[unat i := score s ! unat j, unat j := sc],
                pool := (pool s)[unat i := pool s ! unat j, unat j := candidate]\<rparr>))
      else Inl OutOfBounds)"

text \<open>The loop \<^verbatim>\<open>for(;;)\<close> of \<^verbatim>\<open>partition\<close>, entered with \<open>i\<close> and \<open>j\<close>.\<close>

function partition_loop ::
  "'h trivial \<Rightarrow> double \<Rightarrow> uint \<Rightarrow> uint \<Rightarrow> error + ('h trivial \<times> uint)" where
  "partition_loop s pivot i j =
     (case scan_up (score s) pivot i of
        Inl e \<Rightarrow> Inl e
      | Inr i' \<Rightarrow>
          (case scan_down (score s) pivot j of
             Inl e \<Rightarrow> Inl e
           | Inr j' \<Rightarrow>
               if i' \<ge> j' then Inr (s, j')
               else (case exchange s i' j' of
                       Inl e \<Rightarrow> Inl e
                     | Inr s' \<Rightarrow> partition_loop s' pivot i' j')))"
  by pat_completeness auto

termination partition_loop
proof (relation "measure (\<lambda>(s, pivot, i, j). Suc (unat (j - 1)) - unat (i + 1))")
  show "wf (measure (\<lambda>(s, pivot, i, j). Suc (unat (j - 1)) - unat (i + 1)))"
    by simp
next
  fix s s' :: "'h trivial" and pivot :: double and i j i' j' :: uint
  assume up: "scan_up (score s) pivot i = Inr i'"
    and down: "scan_down (score s) pivot j = Inr j'"
    and lt: "\<not> j' \<le> i'"
  have a: "inb (score s) i'" "unat (i + 1) \<le> unat i'"
    using scan_up_Inr [OF up] by simp_all
  have b: "unat j' \<le> unat (j - 1)"
    using scan_down_Inr [OF down] by simp
  have c: "unat i' < unat j'" using lt by (simp add: word_le_nat_alt)
  then have "j' \<noteq> 0" by auto
  then have d: "unat (j' - 1) = unat j' - 1" by (rule unat_pred)
  have e: "unat (i' + 1) = Suc (unat i')" using a(1) by (rule inb_unat_Suc)
  show "((s', pivot, i', j'), s, pivot, i, j)
       \<in> measure (\<lambda>(s, pivot, i, j). Suc (unat (j - 1)) - unat (i + 1))"
    using a b c d e by simp
qed

declare partition_loop.simps [simp del]

lemma exchange_Inr:
  "exchange s i j = Inr s' \<Longrightarrow>
     inb (score s) i \<and> inb (pool s) i \<and> inb (score s) j \<and> inb (pool s) j \<and>
     score s' = (score s)[unat i := score s ! unat j, unat j := score s ! unat i] \<and>
     pool s' = (pool s)[unat i := pool s ! unat j, unat j := pool s ! unat i] \<and>
     reverse s' = reverse s \<and> count_pool s' = count_pool s"
  by (auto simp: exchange_def Let_def split: if_splits)

lemma partition_loop_spec:
  "partition_loop s pv i j = Inr (s', p) \<Longrightarrow>
   L \<le> unat (i + 1) \<Longrightarrow> unat (j - 1) \<le> H \<Longrightarrow>
   \<exists>k. L \<le> k \<and> k \<le> unat (j - 1) \<and> \<not> pv < score s ! k \<Longrightarrow>
   \<forall>k. L \<le> k \<and> k < unat (i + 1) \<longrightarrow> \<not> pv < score s ! k \<Longrightarrow>
   \<forall>k. unat (j - 1) < k \<and> k \<le> H \<longrightarrow> \<not> score s ! k < pv \<Longrightarrow>
     L \<le> unat p \<and> unat p \<le> unat (j - 1) \<and>
     (\<forall>k. L \<le> k \<and> k \<le> unat p \<longrightarrow> \<not> pv < score s' ! k) \<and>
     (\<forall>k. unat p < k \<and> k \<le> H \<longrightarrow> \<not> score s' ! k < pv) \<and>
     (unat p = unat (j - 1) \<longrightarrow> (\<forall>k. unat (i + 1) \<le> k \<and> k < unat (j - 1) \<longrightarrow> score s ! k < pv))"
proof (induction s pv i j rule: partition_loop.induct)
  case (1 s pivot i j)
  from "1.prems"(1) obtain i' where up: "scan_up (score s) pivot i = Inr i'"
    by (subst (asm) partition_loop.simps) (auto split: sum.splits)
  from "1.prems"(1) up obtain j' where down: "scan_down (score s) pivot j = Inr j'"
    by (subst (asm) partition_loop.simps) (auto split: sum.splits)
  have U: "inb (score s) i'" "unat (i + 1) \<le> unat i'" "\<not> score s ! unat i' < pivot"
    "\<forall>k. unat (i + 1) \<le> k \<and> k < unat i' \<longrightarrow> score s ! k < pivot"
    using scan_up_Inr [OF up] by simp_all
  have D: "inb (score s) j'" "unat j' \<le> unat (j - 1)" "\<not> pivot < score s ! unat j'"
    "\<forall>k. unat j' < k \<and> k \<le> unat (j - 1) \<longrightarrow> pivot < score s ! k"
    using scan_down_Inr [OF down] by simp_all
  from "1.prems"(4) obtain w where w: "L \<le> w" "w \<le> unat (j - 1)" "\<not> pivot < score s ! w"
    by blast
  have wj: "w \<le> unat j'"
  proof (rule ccontr)
    assume "\<not> w \<le> unat j'"
    then have "pivot < score s ! w" using D(4) w(2) by simp
    then show False using w(3) by simp
  qed
  show ?case
  proof (cases "j' \<le> i'")
    case True
    with "1.prems"(1) up down have res: "s' = s" "p = j'"
      by (subst (asm) partition_loop.simps, simp)+
    have ji: "unat j' \<le> unat i'" using True by (simp add: word_le_nat_alt)
    have lowpart: "\<forall>k. L \<le> k \<and> k \<le> unat j' \<longrightarrow> \<not> pivot < score s ! k"
    proof (intro allI impI)
      fix k assume k: "L \<le> k \<and> k \<le> unat j'"
      consider "k < unat (i + 1)" | "unat (i + 1) \<le> k" "k < unat i'" | "k = unat j'"
        using k ji by linarith
      then show "\<not> pivot < score s ! k"
      proof cases
        case 1 then show ?thesis using "1.prems"(5) k by simp
      next
        case 2 then show ?thesis using U(4) by (simp add: double_less_asym)
      next
        case 3 then show ?thesis using D(3) by simp
      qed
    qed
    have highpart: "\<forall>k. unat j' < k \<and> k \<le> H \<longrightarrow> \<not> score s ! k < pivot"
    proof (intro allI impI)
      fix k assume k: "unat j' < k \<and> k \<le> H"
      show "\<not> score s ! k < pivot"
      proof (cases "k \<le> unat (j - 1)")
        case True then show ?thesis using D(4) k by (simp add: double_less_asym)
      next
        case False then show ?thesis using "1.prems"(6) k by simp
      qed
    qed
    have last: "unat j' = unat (j - 1) \<longrightarrow>
        (\<forall>k. unat (i + 1) \<le> k \<and> k < unat (j - 1) \<longrightarrow> score s ! k < pivot)"
      using U(4) ji by simp
    show ?thesis using res wj w(1) D(2) lowpart highpart last by simp
  next
    case False
    with "1.prems"(1) up down obtain s1 where ex: "exchange s i' j' = Inr s1"
      and rec: "partition_loop s1 pivot i' j' = Inr (s', p)"
      by (subst (asm) partition_loop.simps) (auto split: sum.splits)
    have lt: "unat i' < unat j'" using False by (simp add: word_le_nat_alt)
    then have "j' \<noteq> 0" by auto
    then have pj: "unat (j' - 1) = unat j' - 1" by (rule unat_pred)
    have si: "unat (i' + 1) = Suc (unat i')" using U(1) by (rule inb_unat_Suc)
    have sc1: "score s1 = (score s)[unat i' := score s ! unat j', unat j' := score s ! unat i']"
      using exchange_Inr [OF ex] by simp
    have len: "unat i' < length (score s)" "unat j' < length (score s)"
      using U(1) D(1) by (simp_all add: inb_def)
    have at_i: "score s1 ! unat i' = score s ! unat j'"
      using sc1 lt len by simp
    have at_j: "score s1 ! unat j' = score s ! unat i'"
      using sc1 len by simp
    have other: "\<And>k. k \<noteq> unat i' \<Longrightarrow> k \<noteq> unat j' \<Longrightarrow> score s1 ! k = score s ! k"
      using sc1 by simp
    have p1: "L \<le> unat (i' + 1)" using si U(2) "1.prems"(2) by simp
    have p2: "unat (j' - 1) \<le> H" using pj D(2) "1.prems"(3) by simp
    have p3: "\<exists>k. L \<le> k \<and> k \<le> unat (j' - 1) \<and> \<not> pivot < score s1 ! k"
    proof (intro exI conjI)
      show "L \<le> unat i'" using U(2) "1.prems"(2) by simp
      show "unat i' \<le> unat (j' - 1)" using pj lt by simp
      show "\<not> pivot < score s1 ! unat i'" using at_i D(3) by simp
    qed
    have p4: "\<forall>k. L \<le> k \<and> k < unat (i' + 1) \<longrightarrow> \<not> pivot < score s1 ! k"
    proof (intro allI impI)
      fix k assume k: "L \<le> k \<and> k < unat (i' + 1)"
      consider "k < unat (i + 1)" | "unat (i + 1) \<le> k" "k < unat i'" | "k = unat i'"
        using k si by linarith
      then show "\<not> pivot < score s1 ! k"
      proof cases
        case 1
        then have "score s1 ! k = score s ! k" using other U(2) lt by simp
        then show ?thesis using "1.prems"(5) k 1 by simp
      next
        case 2
        then have "score s1 ! k = score s ! k" using other lt by simp
        then show ?thesis using U(4) 2 by (simp add: double_less_asym)
      next
        case 3 then show ?thesis using at_i D(3) by simp
      qed
    qed
    have p5: "\<forall>k. unat (j' - 1) < k \<and> k \<le> H \<longrightarrow> \<not> score s1 ! k < pivot"
    proof (intro allI impI)
      fix k assume k: "unat (j' - 1) < k \<and> k \<le> H"
      consider "k = unat j'" | "unat j' < k" "k \<le> unat (j - 1)" | "unat (j - 1) < k"
        using k pj by linarith
      then show "\<not> score s1 ! k < pivot"
      proof cases
        case 1 then show ?thesis using at_j U(3) by simp
      next
        case 2
        then have "score s1 ! k = score s ! k" using other lt by simp
        then show ?thesis using D(4) 2 by (simp add: double_less_asym)
      next
        case 3
        then have "score s1 ! k = score s ! k" using other lt D(2) by simp
        then show ?thesis using "1.prems"(6) k 3 by simp
      qed
    qed
    have ih: "L \<le> unat p \<and> unat p \<le> unat (j' - 1) \<and>
       (\<forall>k. L \<le> k \<and> k \<le> unat p \<longrightarrow> \<not> pivot < score s' ! k) \<and>
       (\<forall>k. unat p < k \<and> k \<le> H \<longrightarrow> \<not> score s' ! k < pivot) \<and>
       (unat p = unat (j' - 1) \<longrightarrow>
          (\<forall>k. unat (i' + 1) \<le> k \<and> k < unat (j' - 1) \<longrightarrow> score s1 ! k < pivot))"
      using "1.IH" [OF up down False ex rec p1 p2 p3 p4 p5] .
    have "unat p \<le> unat (j' - 1)" using ih by simp
    then have "unat p < unat (j - 1)" using pj lt D(2) by linarith
    then show ?thesis using ih by simp
  qed
qed

lemma partition_loop_pres:
  "partition_loop s pv i j = Inr (s', p) \<Longrightarrow> Q s \<Longrightarrow>
   (\<And>t a b t'. Q t \<Longrightarrow> exchange t a b = Inr t' \<Longrightarrow>
       L \<le> unat a \<Longrightarrow> unat a < unat b \<Longrightarrow> unat b \<le> H \<Longrightarrow> Q t') \<Longrightarrow>
   L \<le> unat (i + 1) \<Longrightarrow> unat (j - 1) \<le> H \<Longrightarrow> Q s'"
proof (induction s pv i j rule: partition_loop.induct)
  case (1 s pivot i j)
  from "1.prems"(1) obtain i' where up: "scan_up (score s) pivot i = Inr i'"
    by (subst (asm) partition_loop.simps) (auto split: sum.splits)
  from "1.prems"(1) up obtain j' where down: "scan_down (score s) pivot j = Inr j'"
    by (subst (asm) partition_loop.simps) (auto split: sum.splits)
  have U: "inb (score s) i'" "unat (i + 1) \<le> unat i'"
    using scan_up_Inr [OF up] by simp_all
  have D: "unat j' \<le> unat (j - 1)"
    using scan_down_Inr [OF down] by simp_all
  show ?case
  proof (cases "j' \<le> i'")
    case True
    with "1.prems"(1) up down have "s' = s"
      by (subst (asm) partition_loop.simps) simp
    then show ?thesis using "1.prems"(2) by simp
  next
    case False
    with "1.prems"(1) up down obtain s1 where ex: "exchange s i' j' = Inr s1"
      and rec: "partition_loop s1 pivot i' j' = Inr (s', p)"
      by (subst (asm) partition_loop.simps) (auto split: sum.splits)
    have lt: "unat i' < unat j'" using False by (simp add: word_le_nat_alt)
    then have "j' \<noteq> 0" by auto
    then have pj: "unat (j' - 1) = unat j' - 1" by (rule unat_pred)
    have si: "unat (i' + 1) = Suc (unat i')" using U(1) by (rule inb_unat_Suc)
    have q1: "Q s1"
      using "1.prems"(3) [OF "1.prems"(2) ex] U(2) "1.prems"(4,5) lt D by simp
    show ?thesis
    proof (rule "1.IH" [OF up down False ex rec q1])
      show "\<And>t a b t'. Q t \<Longrightarrow> exchange t a b = Inr t' \<Longrightarrow>
          L \<le> unat a \<Longrightarrow> unat a < unat b \<Longrightarrow> unat b \<le> H \<Longrightarrow> Q t'"
        using "1.prems"(3) .
      show "L \<le> unat (i' + 1)" using si U(2) "1.prems"(4) by simp
      show "unat (j' - 1) \<le> H" using pj D "1.prems"(5) by simp
    qed
  qed
qed

text \<open>\<^verbatim>\<open>partition\<close>: the pivot is \<^verbatim>\<open>_score[lo]\<close>, and \<open>i\<close>, \<open>j\<close> start one outside the range.\<close>

definition partition_pool :: "'h trivial \<Rightarrow> uint \<Rightarrow> uint \<Rightarrow> error + ('h trivial \<times> uint)" where
  "partition_pool s lo hi =
     (if inb (score s) lo then
        (let pivot = score s ! unat lo; i = lo - 1; j = hi + 1 in
         partition_loop s pivot i j)
      else Inl OutOfBounds)"

lemma partition_pool_spec:
  assumes res: "partition_pool s lo hi = Inr (s', p)" and lt: "lo < hi"
  shows "unat lo \<le> unat p \<and> unat p < unat hi \<and>
     (\<forall>k. unat lo \<le> k \<and> k \<le> unat p \<longrightarrow> \<not> score s ! unat lo < score s' ! k) \<and>
     (\<forall>k. unat p < k \<and> k \<le> unat hi \<longrightarrow> \<not> score s' ! k < score s ! unat lo)"
proof -
  let ?pv = "score s ! unat lo"
  from res have loop: "partition_loop s ?pv (lo - 1) (hi + 1) = Inr (s', p)"
    by (simp add: partition_pool_def Let_def split: if_splits)
  have lh: "unat lo < unat hi" using lt by (simp add: word_less_nat_alt)
  have a: "unat lo \<le> unat (lo - 1 + 1)" by simp
  have b: "unat (hi + 1 - 1) \<le> unat hi" by simp
  have c: "\<exists>k. unat lo \<le> k \<and> k \<le> unat (hi + 1 - 1) \<and> \<not> ?pv < score s ! k"
    using lh by (intro exI [of _ "unat lo"]) (simp add: double_less_irrefl)
  have d: "\<forall>k. unat lo \<le> k \<and> k < unat (lo - 1 + 1) \<longrightarrow> \<not> ?pv < score s ! k" by auto
  have e: "\<forall>k. unat (hi + 1 - 1) < k \<and> k \<le> unat hi \<longrightarrow> \<not> score s ! k < ?pv" by auto
  have spec: "unat lo \<le> unat p \<and> unat p \<le> unat (hi + 1 - 1) \<and>
     (\<forall>k. unat lo \<le> k \<and> k \<le> unat p \<longrightarrow> \<not> ?pv < score s' ! k) \<and>
     (\<forall>k. unat p < k \<and> k \<le> unat hi \<longrightarrow> \<not> score s' ! k < ?pv) \<and>
     (unat p = unat (hi + 1 - 1) \<longrightarrow>
        (\<forall>k. unat (lo - 1 + 1) \<le> k \<and> k < unat (hi + 1 - 1) \<longrightarrow> score s ! k < ?pv))"
    using partition_loop_spec [OF loop a b c d e] .
  have "unat p \<noteq> unat hi"
  proof
    assume "unat p = unat hi"
    with spec have "\<forall>k. unat lo \<le> k \<and> k < unat hi \<longrightarrow> score s ! k < ?pv" by simp
    with lh have "?pv < ?pv" by blast
    then show False by simp
  qed
  with spec show ?thesis by simp
qed

lemma partition_pool_pres:
  assumes res: "partition_pool s lo hi = Inr (s', p)" and q: "Q s"
    and step: "\<And>t a b t'. Q t \<Longrightarrow> exchange t a b = Inr t' \<Longrightarrow>
       L \<le> unat a \<Longrightarrow> unat a < unat b \<Longrightarrow> unat b \<le> H \<Longrightarrow> Q t'"
    and bounds: "L \<le> unat lo" "unat hi \<le> H"
  shows "Q s'"
proof -
  from res have loop: "partition_loop s (score s ! unat lo) (lo - 1) (hi + 1) = Inr (s', p)"
    by (simp add: partition_pool_def Let_def split: if_splits)
  show ?thesis
  proof (rule partition_loop_pres [where Q = Q and L = L and H = H, OF loop q])
    show "\<And>t a b t'. Q t \<Longrightarrow> exchange t a b = Inr t' \<Longrightarrow>
       L \<le> unat a \<Longrightarrow> unat a < unat b \<Longrightarrow> unat b \<le> H \<Longrightarrow> Q t'"
      by (rule step)
    show "L \<le> unat (lo - 1 + 1)" using bounds by simp
    show "unat (hi + 1 - 1) \<le> H" using bounds by simp
  qed
qed

text \<open>
  \<^verbatim>\<open>qsort\<close>: the smaller side is sorted first. Its termination rests on
  \<open>partition_pool_spec\<close>: the returned index is in \<open>[lo, hi)\<close>.
\<close>

function qsort :: "'h trivial \<Rightarrow> uint \<Rightarrow> uint \<Rightarrow> error + 'h trivial" where
  "qsort s lo hi =
     (if lo < hi then
        (case partition_pool s lo hi of
           Inl e \<Rightarrow> Inl e
         | Inr (s1, pivot) \<Rightarrow>
             if pivot - lo < hi - (pivot + 1) then
               (case qsort s1 lo pivot of
                  Inl e \<Rightarrow> Inl e
                | Inr s2 \<Rightarrow> qsort s2 (pivot + 1) hi)
             else
               (case qsort s1 (pivot + 1) hi of
                  Inl e \<Rightarrow> Inl e
                | Inr s2 \<Rightarrow> qsort s2 lo pivot))
      else Inr s)"
  by pat_completeness auto

lemma qsort_measure:
  assumes "partition_pool s lo hi = Inr (s1, p)" and "lo < hi"
  shows "unat p - unat lo < unat hi - unat lo" and "unat hi - unat (p + 1) < unat hi - unat lo"
proof -
  have a: "unat lo \<le> unat p" "unat p < unat hi"
    using partition_pool_spec [OF assms] by simp_all
  have b: "unat (p + 1) = Suc (unat p)" using a(2) by (rule unat_Suc_below)
  show "unat p - unat lo < unat hi - unat lo" using a by simp
  show "unat hi - unat (p + 1) < unat hi - unat lo" using a b by simp
qed

termination qsort
  by (relation "measure (\<lambda>(s, lo, hi). unat hi - unat lo)")
     (auto simp: qsort_measure)

declare qsort.simps [simp del]

subsection \<open>\<^verbatim>\<open>evaluate\<close>\<close>

text \<open>
  The evaluation loop (an OpenMP \<^verbatim>\<open>parallel for\<close>, taken in index order; the calls are
  independent), then \<^verbatim>\<open>qsort(0, _count - 1)\<close> and \<^verbatim>\<open>return _score[0]\<close>. \<open>ev\<close> is
  \<^verbatim>\<open>env->evaluate\<close>.
\<close>

function evaluate_loop :: "('h \<Rightarrow> double) \<Rightarrow> 'h trivial \<Rightarrow> uint \<Rightarrow> error + 'h trivial" where
  "evaluate_loop ev s i =
     (if i < count_pool s then
        (if inb (pool s) i \<and> inb (score s) i then
           evaluate_loop ev (s\<lparr>score := (score s)[unat i := ev (pool s ! unat i)]\<rparr>) (i + 1)
         else Inl OutOfBounds)
      else Inr s)"
  by pat_completeness auto

termination
proof (relation "measure (\<lambda>(ev, s, i). unat (count_pool s) - unat i)")
  show "wf (measure (\<lambda>(ev, s, i). unat (count_pool s) - unat i))" by simp
next
  fix ev :: "'h \<Rightarrow> double" and s :: "'h trivial" and i :: uint
  assume "i < count_pool s"
  then have a: "unat i < unat (count_pool s)" by (simp add: word_less_nat_alt)
  then have "unat (i + 1) = Suc (unat i)" by (rule unat_Suc_below)
  then show "((ev, s\<lparr>score := (score s)[unat i := ev (pool s ! unat i)]\<rparr>, i + 1), ev, s, i)
      \<in> measure (\<lambda>(ev, s, i). unat (count_pool s) - unat i)"
    using a by simp
qed

declare evaluate_loop.simps [simp del]

definition evaluate :: "('h \<Rightarrow> double) \<Rightarrow> 'h trivial \<Rightarrow> error + ('h trivial \<times> double)" where
  "evaluate ev s =
     (case evaluate_loop ev s 0 of
        Inl e \<Rightarrow> Inl e
      | Inr s1 \<Rightarrow>
          (case qsort s1 0 (count_pool s1 - 1) of
             Inl e \<Rightarrow> Inl e
           | Inr s2 \<Rightarrow> if inb (score s2) 0 then Inr (s2, score s2 ! 0) else Inl OutOfBounds))"

subsection \<open>Collaborators\<close>

text \<open>
  The environment, the mutators and the visitor are the caller's. Their state is a world
  \<open>'w\<close> that the model passes through every call; \<^verbatim>\<open>evaluate\<close> reads it and does not change
  it. A run records the calls it makes. The visitor only observes: the model records its
  call and nothing else. \<open>drawn\<close> counts the values taken from the uniform distribution
  of the private \<^verbatim>\<open>mutate\<close>, which the model reads from a sequence \<open>dist'\<close>.
\<close>

datatype 'h call = Reserve uint | Evaluate 'h | Visit uint | Mutate 'h | Clone 'h | Release uint

record ('h, 'w) environment =
  reserve :: "'h list \<Rightarrow> uint \<Rightarrow> 'w \<Rightarrow> 'h list \<times> 'w"
  release :: "'h list \<Rightarrow> uint \<Rightarrow> 'w \<Rightarrow> 'w"
  env_evaluate :: "'w \<Rightarrow> 'h \<Rightarrow> double"
  clone :: "'h \<Rightarrow> 'w \<Rightarrow> 'h \<times> 'w"

record ('h, 'w) mutator =
  threshold :: real
  mutator_mutate :: "'h list \<Rightarrow> double option list \<Rightarrow> double \<Rightarrow> uint \<Rightarrow> 'h \<Rightarrow> 'w \<Rightarrow> 'w"

record ('h, 'w) run =
  world :: 'w
  calls :: "'h call list"
  drawn :: nat

text \<open>
  The conversion of \<^verbatim>\<open>_count * eliteSize\<close> to \<^verbatim>\<open>unsigned int\<close>: truncation towards zero,
  undefined when the truncated value is not an \<^verbatim>\<open>unsigned int\<close>. The product is exact in
  the model; C++ rounds it to a \<^verbatim>\<open>double\<close> before the conversion.
\<close>

definition to_unsigned :: "real \<Rightarrow> error + uint" where
  "to_unsigned x =
     (if - 1 < x \<and> x < 2 ^ 32 then Inr (word_of_int (if x < 0 then \<lceil>x\<rceil> else \<lfloor>x\<rfloor>))
      else Inl Unrepresentable)"

subsection \<open>One generation\<close>

text \<open>The reverse score board: the loop over \<open>i < eliteCount\<close> at the head of a generation.\<close>

function reverse_board ::
  "'h trivial \<Rightarrow> uint \<Rightarrow> uint \<Rightarrow> double \<Rightarrow> error + ('h trivial \<times> double)" where
  "reverse_board s eliteCount i totalScore =
     (if i < eliteCount then
        (if inb (score s) i \<and> inb (reverse s) (eliteCount - i) then
           reverse_board
             (s\<lparr>reverse := (reverse s)[unat (eliteCount - i) := Some (score s ! unat i)]\<rparr>)
             eliteCount (i + 1) (totalScore + score s ! unat i)
         else Inl OutOfBounds)
      else Inr (s, totalScore))"
  by pat_completeness auto

termination
proof (relation "measure (\<lambda>(s, eliteCount, i, totalScore). unat eliteCount - unat i)")
  show "wf (measure (\<lambda>(s :: 'h trivial, eliteCount, i, totalScore :: double). unat eliteCount - unat i))"
    by simp
next
  fix s :: "'h trivial" and eliteCount i :: uint and totalScore :: double
  assume "i < eliteCount"
  then have a: "unat i < unat eliteCount" by (simp add: word_less_nat_alt)
  then have "unat (i + 1) = Suc (unat i)" by (rule unat_Suc_below)
  then show "((s\<lparr>reverse := (reverse s)[unat (eliteCount - i) := Some (score s ! unat i)]\<rparr>,
        eliteCount, i + 1, totalScore + score s ! unat i), s, eliteCount, i, totalScore)
      \<in> measure (\<lambda>(s, eliteCount, i, totalScore). unat eliteCount - unat i)"
    using a by simp
qed

declare reverse_board.simps [simp del]

text \<open>
  The statement \<^verbatim>\<open>mutator->mutate(_pool, _reverse, total, count, _pool[pos])\<close>, and the two
  overloads of the private \<^verbatim>\<open>mutate\<close>: the one for a single mutator applies it, the one for
  a mutator followed by others draws first.
\<close>

definition mutator_call ::
  "'h trivial \<Rightarrow> double \<Rightarrow> uint \<Rightarrow> uint \<Rightarrow> ('h, 'w) mutator \<Rightarrow> ('h, 'w) run \<Rightarrow>
     error + ('h, 'w) run" where
  "mutator_call s total' pos cnt mutator r =
     (if inb (pool s) pos then
        Inr (r\<lparr>world := mutator_mutate mutator (pool s) (reverse s) total' cnt
                          (pool s ! unat pos) (world r),
               calls := calls r @ [Mutate (pool s ! unat pos)]\<rparr>)
      else Inl OutOfBounds)"

fun mutate ::
  "(nat \<Rightarrow> real) \<Rightarrow> 'h trivial \<Rightarrow> double \<Rightarrow> uint \<Rightarrow> uint \<Rightarrow> ('h, 'w) mutator \<Rightarrow>
     ('h, 'w) mutator list \<Rightarrow> ('h, 'w) run \<Rightarrow> error + ('h, 'w) run" where
  "mutate dist' s total' pos cnt mutator [] r = mutator_call s total' pos cnt mutator r"
| "mutate dist' s total' pos cnt mutator (m # others) r =
     (let rnd = dist' (drawn r); r' = r\<lparr>drawn := Suc (drawn r)\<rparr> in
      if rnd < threshold mutator then mutator_call s total' pos cnt mutator r'
      else mutate dist' s total' pos cnt m others r')"

text \<open>
  The recycling loop over \<open>eliteCount \<le> i < _count\<close> (an OpenMP \<^verbatim>\<open>parallel for\<close>, taken in
  index order), and the body of the generation loop.
\<close>

function recycle ::
  "(nat \<Rightarrow> real) \<Rightarrow> 'h trivial \<Rightarrow> double \<Rightarrow> uint \<Rightarrow> uint \<Rightarrow> ('h, 'w) mutator \<Rightarrow>
     ('h, 'w) mutator list \<Rightarrow> ('h, 'w) run \<Rightarrow> error + ('h, 'w) run" where
  "recycle dist' s totalScore i eliteCount mutator others r =
     (if i < count_pool s then
        (case mutate dist' s totalScore i eliteCount mutator others r of
           Inl e \<Rightarrow> Inl e
         | Inr r' \<Rightarrow> recycle dist' s totalScore (i + 1) eliteCount mutator others r')
      else Inr r)"
  by pat_completeness auto

termination
proof (relation "measure (\<lambda>(dist', s, totalScore, i, rest). unat (count_pool s) - unat i)")
  show "wf (measure (\<lambda>(dist' :: nat \<Rightarrow> real, s :: 'h trivial, totalScore :: double, i,
      rest :: uint \<times> ('h, 'w) mutator \<times> ('h, 'w) mutator list \<times> ('h, 'w) run).
      unat (count_pool s) - unat i))"
    by simp
next
  fix dist' :: "nat \<Rightarrow> real" and s :: "'h trivial" and totalScore :: double
    and i eliteCount :: uint and mutator :: "('h, 'w) mutator"
    and others :: "('h, 'w) mutator list" and r r' :: "('h, 'w) run"
  assume "i < count_pool s"
  then have a: "unat i < unat (count_pool s)" by (simp add: word_less_nat_alt)
  then have "unat (i + 1) = Suc (unat i)" by (rule unat_Suc_below)
  then show "((dist', s, totalScore, i + 1, eliteCount, mutator, others, r'),
        dist', s, totalScore, i, eliteCount, mutator, others, r)
      \<in> measure (\<lambda>(dist', s, totalScore, i, rest). unat (count_pool s) - unat i)"
    using a by simp
qed

declare recycle.simps [simp del]

definition new_pool ::
  "bool \<Rightarrow> (nat \<Rightarrow> real) \<Rightarrow> uint \<Rightarrow> ('h, 'w) mutator \<Rightarrow> ('h, 'w) mutator list \<Rightarrow>
     'h trivial \<Rightarrow> ('h, 'w) run \<Rightarrow> error + ('h trivial \<times> ('h, 'w) run)" where
  "new_pool visitor dist' eliteCount mutator others s r =
     (case reverse_board s eliteCount 0 0 of
        Inl e \<Rightarrow> Inl e
      | Inr (s', totalScore) \<Rightarrow>
          (let r' = (if visitor then r\<lparr>calls := calls r @ [Visit eliteCount]\<rparr> else r) in
           case recycle dist' s' totalScore eliteCount eliteCount mutator others r' of
             Inl e \<Rightarrow> Inl e
           | Inr r'' \<Rightarrow> Inr (s', r'')))"

subsection \<open>\<^verbatim>\<open>train\<close>\<close>

text \<open>
  The generation loop. Its condition is
  \<^verbatim>\<open>(generation < maxGen) && ((minimum = evaluate(env)) > minErr)\<close>: the evaluation is not
  reached once \<open>generation\<close> is \<open>maxGen\<close>. \<open>minimum\<close> is \<open>None\<close> until it is assigned.
\<close>

function train_loop ::
  "('h, 'w) environment \<Rightarrow> bool \<Rightarrow> (nat \<Rightarrow> real) \<Rightarrow> uint \<Rightarrow> double \<Rightarrow> uint \<Rightarrow>
     ('h, 'w) mutator \<Rightarrow> ('h, 'w) mutator list \<Rightarrow> uint \<Rightarrow> double option \<Rightarrow> 'h trivial \<Rightarrow>
     ('h, 'w) run \<Rightarrow> error + ('h trivial \<times> ('h, 'w) run \<times> uint \<times> double option)" where
  "train_loop env visitor dist' maxGen minErr eliteCount mutator others generation minimum s r =
     (if generation < maxGen then
        (case evaluate (env_evaluate env (world r)) s of
           Inl e \<Rightarrow> Inl e
         | Inr (s1, m) \<Rightarrow>
             (let r1 = r\<lparr>calls := calls r @ map Evaluate (pool s)\<rparr> in
              if m > minErr then
                (case new_pool visitor dist' eliteCount mutator others s1 r1 of
                   Inl e \<Rightarrow> Inl e
                 | Inr (s2, r2) \<Rightarrow>
                     train_loop env visitor dist' maxGen minErr eliteCount mutator others
                       (generation + 1) (Some m) s2 r2)
              else Inr (s1, r1, generation, Some m)))
      else Inr (s, r, generation, minimum))"
  by pat_completeness auto

termination
proof (relation "measure (\<lambda>(env, visitor, dist', maxGen, minErr, eliteCount, mutator, others,
    generation, rest). unat maxGen - unat generation)")
  show "wf (measure (\<lambda>(env :: ('h, 'w) environment, visitor :: bool, dist' :: nat \<Rightarrow> real,
      maxGen, minErr :: double, eliteCount :: uint, mutator :: ('h, 'w) mutator,
      others :: ('h, 'w) mutator list, generation,
      rest :: double option \<times> 'h trivial \<times> ('h, 'w) run). unat maxGen - unat generation))"
    by simp
next
  fix env :: "('h, 'w) environment" and visitor :: bool and dist' :: "nat \<Rightarrow> real"
    and maxGen generation eliteCount :: uint and minErr m :: double
    and mutator :: "('h, 'w) mutator" and others :: "('h, 'w) mutator list"
    and minimum :: "double option" and s s2 :: "'h trivial" and r r2 :: "('h, 'w) run"
  assume "generation < maxGen"
  then have a: "unat generation < unat maxGen" by (simp add: word_less_nat_alt)
  then have "unat (generation + 1) = Suc (unat generation)" by (rule unat_Suc_below)
  then show "((env, visitor, dist', maxGen, minErr, eliteCount, mutator, others,
        generation + 1, Some m, s2, r2),
       env, visitor, dist', maxGen, minErr, eliteCount, mutator, others,
        generation, minimum, s, r)
      \<in> measure (\<lambda>(env, visitor, dist', maxGen, minErr, eliteCount, mutator, others,
          generation, rest). unat maxGen - unat generation)"
    using a by simp
qed

declare train_loop.simps [simp del]

text \<open>The loop that clones the first \<open>number\<close> candidates into the caller's store.\<close>

function store_clones ::
  "('h, 'w) environment \<Rightarrow> 'h trivial \<Rightarrow> uint \<Rightarrow> uint \<Rightarrow> 'h list \<Rightarrow> ('h, 'w) run \<Rightarrow>
     error + ('h list \<times> ('h, 'w) run)" where
  "store_clones env s number i store r =
     (if i < number then
        (if inb (pool s) i \<and> inb store i then
           (let (c, w) = clone env (pool s ! unat i) (world r) in
            store_clones env s number (i + 1) (store[unat i := c])
              (r\<lparr>world := w, calls := calls r @ [Clone (pool s ! unat i)]\<rparr>))
         else Inl OutOfBounds)
      else Inr (store, r))"
  by pat_completeness auto

termination
proof (relation "measure (\<lambda>(env, s, number, i, rest). unat number - unat i)")
  show "wf (measure (\<lambda>(env :: ('h, 'w) environment, s :: 'h trivial, number, i,
      rest :: 'h list \<times> ('h, 'w) run). unat number - unat i))"
    by simp
next
  fix env :: "('h, 'w) environment" and s :: "'h trivial" and number i :: uint
    and store :: "'h list" and r :: "('h, 'w) run" and x :: "'h \<times> 'w" and c :: 'h and w :: 'w
  assume "i < number"
  then have a: "unat i < unat number" by (simp add: word_less_nat_alt)
  then have "unat (i + 1) = Suc (unat i)" by (rule unat_Suc_below)
  then show "((env, s, number, i + 1, store[unat i := c],
        r\<lparr>world := w, calls := calls r @ [Clone (pool s ! unat i)]\<rparr>),
       env, s, number, i, store, r)
      \<in> measure (\<lambda>(env, s, number, i, rest). unat number - unat i)"
    using a by simp
qed

declare store_clones.simps [simp del]

text \<open>
  \<^verbatim>\<open>train\<close>. The mutators are a first one and a list of others: with no mutator at all the
  call of the private \<^verbatim>\<open>mutate\<close> has no overload to resolve to, and \<^verbatim>\<open>train\<close> does not compile.
  The result is the final run, the store and the tuple (generation, minimum, number).
\<close>

definition train ::
  "'h trivial \<Rightarrow> ('h, 'w) environment \<Rightarrow> bool \<Rightarrow> (nat \<Rightarrow> real) \<Rightarrow> uint \<Rightarrow> double \<Rightarrow> real \<Rightarrow>
     'h list \<Rightarrow> uint \<Rightarrow> ('h, 'w) mutator \<Rightarrow> ('h, 'w) mutator list \<Rightarrow> 'w \<Rightarrow>
     error + (('h, 'w) run \<times> 'h list \<times> uint \<times> double option \<times> uint)" where
  "train engine env visitor dist' maxGen minErr eliteSize store size' mutator others w =
     (case to_unsigned (real (unat (count_pool engine)) * eliteSize) of
        Inl e \<Rightarrow> Inl e
      | Inr eliteCount \<Rightarrow>
          (let (p, w') = reserve env (pool engine) (count_pool engine) w;
               s = engine\<lparr>pool := p\<rparr>;
               r = \<lparr>world = w', calls = [Reserve (count_pool engine)], drawn = 0\<rparr>
           in
             case train_loop env visitor dist' maxGen minErr eliteCount mutator others
                    0 None s r of
               Inl e \<Rightarrow> Inl e
             | Inr (s', r', generation, minimum) \<Rightarrow>
                 (let number = (if eliteCount < size' then eliteCount else size') in
                  case store_clones env s' number 0 store r' of
                    Inl e \<Rightarrow> Inl e
                  | Inr (store', r'') \<Rightarrow>
                      Inr (r''\<lparr>world := release env (pool s') (count_pool s') (world r''),
                                calls := calls r'' @ [Release (count_pool s')]\<rparr>,
                           store', generation, minimum, number))))"

section \<open>The example mutators\<close>

text \<open>
  The selection loop of both example mutators,
  \<^verbatim>\<open>for(index = 0; cumulator < position; cumulator += score[index++]);\<close>, entered with
  \<open>index\<close> and \<open>cumulator\<close>. The weights, the position and the running total are taken
  finite here, as reals: the choice of the indices, which the claims on the examples are
  about, is made on unsigned integers.
\<close>

function cumulate :: "real option list \<Rightarrow> real \<Rightarrow> uint \<Rightarrow> real \<Rightarrow> error + uint" where
  "cumulate score' position index cumulator =
     (if cumulator < position then
        (if inb score' index then
           (case score' ! unat index of
              None \<Rightarrow> Inl Uninitialized
            | Some x \<Rightarrow> cumulate score' position (index + 1) (cumulator + x))
         else Inl OutOfBounds)
      else Inr index)"
  by pat_completeness auto

termination
proof (relation "measure (\<lambda>(score', position, index, cumulator). length score' - unat index)")
  show "wf (measure (\<lambda>(score' :: real option list, position :: real, index :: uint,
      cumulator :: real). length score' - unat index))"
    by simp
next
  fix score' :: "real option list" and position cumulator x :: real and index :: uint
  assume b: "inb score' index"
  then have "unat (index + 1) = Suc (unat index)" by (rule inb_unat_Suc)
  then show "((score', position, index + 1, cumulator + x), score', position, index, cumulator)
      \<in> measure (\<lambda>(score', position, index, cumulator). length score' - unat index)"
    using b by (auto simp: inb_def)
qed

declare cumulate.simps [simp del]

text \<open>
  The two parents of \<^verbatim>\<open>MateMutator::mutate\<close> and the parent of \<^verbatim>\<open>ClassicMutator::mutate\<close>.
  \<open>range1\<close> and \<open>range2\<close> are the values of \<^verbatim>\<open>s_range(*s_mt)\<close>.
\<close>

definition mate_parents ::
  "real option list \<Rightarrow> real \<Rightarrow> uint \<Rightarrow> real \<Rightarrow> real \<Rightarrow> error + (uint \<times> uint)" where
  "mate_parents score' total' size' range1 range2 =
     (case cumulate score' (range1 * total') 0 0 of
        Inl e \<Rightarrow> Inl e
      | Inr index \<Rightarrow>
          (case cumulate score' (range2 * total') 0 0 of
             Inl e \<Rightarrow> Inl e
           | Inr mate \<Rightarrow>
               Inr (index,
                    if index = mate then
                      (if mate = 0 then 1
                       else if mate = size' - 1 then size' - 2
                       else index + 1)
                    else mate)))"

definition classic_parent :: "real option list \<Rightarrow> real \<Rightarrow> real \<Rightarrow> error + uint" where
  "classic_parent score' total' range1 = cumulate score' (range1 * total') 0 0"

section \<open>Notions of the specification\<close>

text \<open>
  The parent that weighted sampling selects in the words of the specification: the first
  index whose cumulative weight exceeds the draw.
\<close>

definition spec_first_exceeding :: "real list \<Rightarrow> real \<Rightarrow> nat option" where
  "spec_first_exceeding weights u =
     find (\<lambda>k. u < sum_list (take (Suc k) weights)) [0..<length weights]"


text \<open>
  What a caller observes of a run of \<^verbatim>\<open>train\<close>: the calls made, the store and the tuple;
  and the number of \<^verbatim>\<open>mutate\<close> calls and of \<^verbatim>\<open>evaluate\<close> calls among the calls made.
\<close>

definition observed ::
  "error + (('h, 'w) run \<times> 'h list \<times> uint \<times> double option \<times> uint) \<Rightarrow>
     error + ('h call list \<times> 'h list \<times> uint \<times> double option \<times> uint)" where
  "observed result = map_sum id (\<lambda>(r, out). (calls r, out)) result"





section \<open>Example data\<close>

text \<open>
  An environment over candidates numbered from 10, whose world gives each candidate a
  finite score, and two mutators; a sequence of draws; and the scores of the four
  candidates as \<^verbatim>\<open>evaluate\<close> sees them.
\<close>

definition example_world :: "nat \<Rightarrow> real" where
  "example_world h = (if h = 10 then 3 else if h = 11 then 1 else if h = 12 then 2 else 1)"

definition example_env :: "(nat, nat \<Rightarrow> real) environment" where
  "example_env =
     \<lparr>reserve = (\<lambda>buffer n w. (take (unat n) [10, 11, 12, 13], w)),
      release = (\<lambda>buffer n w. w),
      env_evaluate = (\<lambda>w h. Fin (w h)),
      clone = (\<lambda>h w. (100 + h, w(100 + h := w h)))\<rparr>"

definition halve :: "(nat, nat \<Rightarrow> real) mutator" where
  "halve = \<lparr>threshold = 3 / 10,
     mutator_mutate = (\<lambda>parents sc t c offspring w. w(offspring := w (parents ! 0) / 2))\<rparr>"

definition copy :: "(nat, nat \<Rightarrow> real) mutator" where
  "copy = \<lparr>threshold = 8 / 10,
     mutator_mutate = (\<lambda>parents sc t c offspring w. w(offspring := w (parents ! 0)))\<rparr>"

definition example_run :: "(nat, nat \<Rightarrow> real) run" where
  "example_run = \<lparr>world = example_world, calls = [], drawn = 0\<rparr>"

definition example_draws :: "nat \<Rightarrow> real" where
  "example_draws n = (if n = 0 then 1 / 10 else 1 / 2)"

definition example_pool :: "nat trivial" where
  "example_pool = \<lparr>pool = [10, 11, 12, 13], score = [Fin 3, Fin 1, Fin 2, Fin 1],
     reverse = [None, None, None, None], count_pool = 4\<rparr>"

definition example_scores :: "nat \<Rightarrow> double" where
  "example_scores h = (if h = 10 then Fin 3 else if h = 11 then Fin 1 else if h = 12 then Fin 2 else Fin 1)"

definition example_ranked :: "nat trivial" where
  "example_ranked = \<lparr>pool = [11, 13, 12, 10], score = [Fin 1, Fin 1, Fin 2, Fin 3],
     reverse = [None, None, None, None], count_pool = 4\<rparr>"







text \<open>
  A pool of three candidates of which the second scores NaN, and an environment whose
  world holds a \<^verbatim>\<open>double\<close> per candidate, with a mutator that makes its target score NaN.
\<close>

definition nan_pool :: "nat trivial" where
  "nan_pool = \<lparr>pool = [20, 21, 22], score = [Fin 0, Fin 0, Fin 0],
     reverse = [None, None, None], count_pool = 3\<rparr>"

definition nan_scores :: "nat \<Rightarrow> double" where
  "nan_scores h = (if h = 20 then Fin 2 else if h = 21 then NaN else Fin 1)"

definition nan_ranked :: "nat trivial" where
  "nan_ranked = \<lparr>pool = [21, 22, 20], score = [NaN, Fin 1, Fin 2],
     reverse = [None, None, None], count_pool = 3\<rparr>"







section \<open>Ranking\<close>

lemma qsort_pres:
  "qsort s lo hi = Inr s' \<Longrightarrow> Q s \<Longrightarrow>
   (\<And>t a b t'. Q t \<Longrightarrow> exchange t a b = Inr t' \<Longrightarrow>
       L \<le> unat a \<Longrightarrow> unat a < unat b \<Longrightarrow> unat b \<le> H \<Longrightarrow> Q t') \<Longrightarrow>
   L \<le> unat lo \<Longrightarrow> unat hi \<le> H \<Longrightarrow> Q s'"
proof (induction s lo hi arbitrary: s' rule: qsort.induct)
  case (1 s lo hi)
  note step = "1.prems"(3)
  show ?case
  proof (cases "lo < hi")
    case False
    with "1.prems"(1) have "s' = s" by (subst (asm) qsort.simps) simp
    then show ?thesis using "1.prems"(2) by simp
  next
    case True
    with "1.prems"(1) obtain s1 p where part: "partition_pool s lo hi = Inr (s1, p)"
      by (subst (asm) qsort.simps) (auto split: sum.splits)
    have bnd: "unat lo \<le> unat p" "unat p < unat hi"
      using partition_pool_spec [OF part True] by simp_all
    have sp: "unat (p + 1) = Suc (unat p)" using bnd(2) by (rule unat_Suc_below)
    have q1: "Q s1"
      by (rule partition_pool_pres [where Q = Q and L = L and H = H, OF part "1.prems"(2)])
         (auto intro: step simp: "1.prems"(4,5))
    have lo_p: "L \<le> unat lo" "unat p \<le> H" using "1.prems"(4,5) bnd by simp_all
    have p_hi: "L \<le> unat (p + 1)" "unat hi \<le> H" using "1.prems"(4,5) bnd sp by simp_all
    show ?thesis
    proof (cases "p - lo < hi - (p + 1)")
      case left: True
      with True part "1.prems"(1) obtain s2 where a: "qsort s1 lo p = Inr s2"
        and b: "qsort s2 (p + 1) hi = Inr s'"
        by (subst (asm) qsort.simps) (auto split: sum.splits)
      have "Q s2"
        by (rule "1.IH"(1) [OF True part refl left a q1 step lo_p])
      then show ?thesis
        by (rule "1.IH"(2) [OF True part refl left a b _ step p_hi])
    next
      case right: False
      with True part "1.prems"(1) obtain s2 where a: "qsort s1 (p + 1) hi = Inr s2"
        and b: "qsort s2 lo p = Inr s'"
        by (subst (asm) qsort.simps) (auto split: sum.splits)
      have "Q s2"
        by (rule "1.IH"(3) [OF True part refl right a q1 step p_hi])
      then show ?thesis
        by (rule "1.IH"(4) [OF True part refl right a b _ step lo_p])
    qed
  qed
qed

lemma exchange_other:
  "exchange t a b = Inr t' \<Longrightarrow> k \<noteq> unat a \<Longrightarrow> k \<noteq> unat b \<Longrightarrow>
     score t' ! k = score t ! k \<and> pool t' ! k = pool t ! k"
  by (auto dest!: exchange_Inr)

lemma exchange_range:
  assumes ex: "exchange t a b = Inr t'"
    and ab: "L \<le> unat a" "unat a < unat b" "unat b \<le> H"
    and P: "\<forall>k. L \<le> k \<and> k \<le> H \<longrightarrow> P (score t ! k)"
  shows "\<forall>k. L \<le> k \<and> k \<le> H \<longrightarrow> P (score t' ! k)"
proof (intro allI impI)
  fix k assume k: "L \<le> k \<and> k \<le> H"
  have e: "score t' = (score t)[unat a := score t ! unat b, unat b := score t ! unat a]"
    "unat a < length (score t)" "unat b < length (score t)"
    using exchange_Inr [OF ex] by (simp_all add: inb_def)
  consider "k = unat a" | "k = unat b" | "k \<noteq> unat a" "k \<noteq> unat b" by blast
  then show "P (score t' ! k)"
  proof cases
    case 1
    then have "score t' ! k = score t ! unat b" using e ab by simp
    then show ?thesis using P ab by simp
  next
    case 2
    then have "score t' ! k = score t ! unat a" using e by simp
    then show ?thesis using P ab by simp
  next
    case 3
    then have "score t' ! k = score t ! k" using e by simp
    then show ?thesis using P k by simp
  qed
qed

lemma qsort_range_pred:
  assumes "qsort s lo hi = Inr s'"
    and "\<forall>k. unat lo \<le> k \<and> k \<le> unat hi \<longrightarrow> P (score s ! k)"
  shows "\<forall>k. unat lo \<le> k \<and> k \<le> unat hi \<longrightarrow> P (score s' ! k)"
proof (rule qsort_pres [where Q = "\<lambda>t. \<forall>k. unat lo \<le> k \<and> k \<le> unat hi \<longrightarrow> P (score t ! k)"
      and L = "unat lo" and H = "unat hi", OF assms])
  show "\<And>t a b t'. \<forall>k. unat lo \<le> k \<and> k \<le> unat hi \<longrightarrow> P (score t ! k) \<Longrightarrow>
       exchange t a b = Inr t' \<Longrightarrow> unat lo \<le> unat a \<Longrightarrow> unat a < unat b \<Longrightarrow>
       unat b \<le> unat hi \<Longrightarrow> \<forall>k. unat lo \<le> k \<and> k \<le> unat hi \<longrightarrow> P (score t' ! k)"
    by (rule exchange_range)
qed simp_all

lemma qsort_frame:
  assumes "qsort s lo hi = Inr s'" and k: "k < unat lo \<or> unat hi < k"
  shows "score s' ! k = score s ! k \<and> pool s' ! k = pool s ! k"
proof (rule qsort_pres [where Q = "\<lambda>t. score t ! k = score s ! k \<and> pool t ! k = pool s ! k"
      and L = "unat lo" and H = "unat hi", OF assms(1)])
  fix t a b t'
  assume q: "score t ! k = score s ! k \<and> pool t ! k = pool s ! k"
    and ex: "exchange t a b = Inr t'"
    and ab: "unat lo \<le> unat a" "unat a < unat b" "unat b \<le> unat hi"
  have "k \<noteq> unat a" "k \<noteq> unat b" using k ab by auto
  then show "score t' ! k = score s ! k \<and> pool t' ! k = pool s ! k"
    using exchange_other [OF ex] q by simp
qed simp_all

lemma partition_pool_range_pred:
  assumes "partition_pool s lo hi = Inr (s', p)"
    and "\<forall>k. unat lo \<le> k \<and> k \<le> unat hi \<longrightarrow> P (score s ! k)"
  shows "\<forall>k. unat lo \<le> k \<and> k \<le> unat hi \<longrightarrow> P (score s' ! k)"
proof (rule partition_pool_pres [where Q = "\<lambda>t. \<forall>k. unat lo \<le> k \<and> k \<le> unat hi \<longrightarrow> P (score t ! k)"
      and L = "unat lo" and H = "unat hi", OF assms])
  show "\<And>t a b t'. \<forall>k. unat lo \<le> k \<and> k \<le> unat hi \<longrightarrow> P (score t ! k) \<Longrightarrow>
       exchange t a b = Inr t' \<Longrightarrow> unat lo \<le> unat a \<Longrightarrow> unat a < unat b \<Longrightarrow>
       unat b \<le> unat hi \<Longrightarrow> \<forall>k. unat lo \<le> k \<and> k \<le> unat hi \<longrightarrow> P (score t' ! k)"
    by (rule exchange_range)
qed simp_all

lemma qsort_sorted:
  "qsort s lo hi = Inr s' \<Longrightarrow>
   \<forall>k. unat lo \<le> k \<and> k \<le> unat hi \<longrightarrow> score s ! k \<noteq> NaN \<Longrightarrow>
     \<forall>a b. unat lo \<le> a \<and> a \<le> b \<and> b \<le> unat hi \<longrightarrow> score s' ! a \<le> score s' ! b"
proof (induction s lo hi arbitrary: s' rule: qsort.induct)
  case (1 s lo hi)
  note nn = "1.prems"(2)
  show ?case
  proof (cases "lo < hi")
    case False
    then have hl: "unat hi \<le> unat lo" by (simp add: word_less_nat_alt)
    from False "1.prems"(1) have same: "s' = s" by (subst (asm) qsort.simps) simp
    show ?thesis
    proof (intro allI impI)
      fix a b assume ab: "unat lo \<le> a \<and> a \<le> b \<and> b \<le> unat hi"
      then have "a = b" using hl by simp
      moreover have "score s ! a \<noteq> NaN" using nn ab by simp
      ultimately show "score s' ! a \<le> score s' ! b" using same by (simp add: double_le_refl)
    qed
  next
    case True
    with "1.prems"(1) obtain s1 p where part: "partition_pool s lo hi = Inr (s1, p)"
      by (subst (asm) qsort.simps) (auto split: sum.splits)
    let ?pv = "score s ! unat lo"
    have bnd: "unat lo \<le> unat p" "unat p < unat hi"
      and low0: "\<forall>k. unat lo \<le> k \<and> k \<le> unat p \<longrightarrow> \<not> ?pv < score s1 ! k"
      and high0: "\<forall>k. unat p < k \<and> k \<le> unat hi \<longrightarrow> \<not> score s1 ! k < ?pv"
      using partition_pool_spec [OF part True] by simp_all
    have sp: "unat (p + 1) = Suc (unat p)" using bnd(2) by (rule unat_Suc_below)
    have pvn: "?pv \<noteq> NaN" using nn bnd by simp
    have nn1: "\<forall>k. unat lo \<le> k \<and> k \<le> unat hi \<longrightarrow> score s1 ! k \<noteq> NaN"
      using partition_pool_range_pred [OF part, where P = "\<lambda>x. x \<noteq> NaN"] nn by simp
    have low1: "\<forall>k. unat lo \<le> k \<and> k \<le> unat p \<longrightarrow> score s1 ! k \<le> ?pv"
    proof (intro allI impI)
      fix k assume k: "unat lo \<le> k \<and> k \<le> unat p"
      then have "score s1 ! k \<noteq> NaN" using nn1 bnd by simp
      then show "score s1 ! k \<le> ?pv"
        using low0 k pvn double_not_less [of "score s1 ! k" "?pv"] by blast
    qed
    have high1': "\<forall>k. unat (p + 1) \<le> k \<and> k \<le> unat hi \<longrightarrow> ?pv \<le> score s1 ! k"
    proof (intro allI impI)
      fix k assume k: "unat (p + 1) \<le> k \<and> k \<le> unat hi"
      then have "score s1 ! k \<noteq> NaN" using nn1 bnd sp by simp
      moreover have "\<not> score s1 ! k < ?pv" using high0 k sp by simp
      ultimately show "?pv \<le> score s1 ! k"
        using pvn double_not_less [of "?pv" "score s1 ! k"] by blast
    qed
    have nl: "\<And>t. \<forall>k. unat lo \<le> k \<and> k \<le> unat p \<longrightarrow> score t ! k \<le> ?pv \<Longrightarrow>
        \<forall>k. unat lo \<le> k \<and> k \<le> unat p \<longrightarrow> score t ! k \<noteq> NaN"
      using double_le_not_NaN by blast
    have nh: "\<And>t. \<forall>k. unat (p + 1) \<le> k \<and> k \<le> unat hi \<longrightarrow> ?pv \<le> score t ! k \<Longrightarrow>
        \<forall>k. unat (p + 1) \<le> k \<and> k \<le> unat hi \<longrightarrow> score t ! k \<noteq> NaN"
      using double_le_not_NaN by blast
    have fin: "(\<forall>k. unat lo \<le> k \<and> k \<le> unat p \<longrightarrow> score s' ! k \<le> ?pv) \<and>
      (\<forall>k. unat (p + 1) \<le> k \<and> k \<le> unat hi \<longrightarrow> ?pv \<le> score s' ! k) \<and>
      (\<forall>a b. unat lo \<le> a \<and> a \<le> b \<and> b \<le> unat p \<longrightarrow> score s' ! a \<le> score s' ! b) \<and>
      (\<forall>a b. unat (p + 1) \<le> a \<and> a \<le> b \<and> b \<le> unat hi \<longrightarrow> score s' ! a \<le> score s' ! b)"
    proof (cases "p - lo < hi - (p + 1)")
      case left: True
      with True part "1.prems"(1) obtain s2 where a: "qsort s1 lo p = Inr s2"
        and b: "qsort s2 (p + 1) hi = Inr s'"
        by (subst (asm) qsort.simps) (auto split: sum.splits)
      have low2: "\<forall>k. unat lo \<le> k \<and> k \<le> unat p \<longrightarrow> score s2 ! k \<le> ?pv"
        using qsort_range_pred [OF a, where P = "\<lambda>x. x \<le> ?pv"] low1 by simp
      have high2: "\<forall>k. unat (p + 1) \<le> k \<and> k \<le> unat hi \<longrightarrow> ?pv \<le> score s2 ! k"
        using qsort_frame [OF a] high1' sp by simp
      have sorted2: "\<forall>a b. unat lo \<le> a \<and> a \<le> b \<and> b \<le> unat p \<longrightarrow> score s2 ! a \<le> score s2 ! b"
        using "1.IH"(1) [OF True part refl left a nl [OF low1]] .
      have same: "\<And>k. k \<le> unat p \<Longrightarrow> score s' ! k = score s2 ! k"
        using qsort_frame [OF b] sp by simp
      have f1: "\<forall>k. unat lo \<le> k \<and> k \<le> unat p \<longrightarrow> score s' ! k \<le> ?pv"
        using low2 same by simp
      have f2: "\<forall>k. unat (p + 1) \<le> k \<and> k \<le> unat hi \<longrightarrow> ?pv \<le> score s' ! k"
        using qsort_range_pred [OF b, where P = "\<lambda>x. ?pv \<le> x"] high2 by simp
      have f3: "\<forall>a b. unat lo \<le> a \<and> a \<le> b \<and> b \<le> unat p \<longrightarrow> score s' ! a \<le> score s' ! b"
        using sorted2 same by simp
      have f4: "\<forall>a b. unat (p + 1) \<le> a \<and> a \<le> b \<and> b \<le> unat hi \<longrightarrow> score s' ! a \<le> score s' ! b"
        using "1.IH"(2) [OF True part refl left a b nh [OF high2]] .
      show ?thesis using f1 f2 f3 f4 by (intro conjI)
    next
      case right: False
      with True part "1.prems"(1) obtain s2 where a: "qsort s1 (p + 1) hi = Inr s2"
        and b: "qsort s2 lo p = Inr s'"
        by (subst (asm) qsort.simps) (auto split: sum.splits)
      have high2: "\<forall>k. unat (p + 1) \<le> k \<and> k \<le> unat hi \<longrightarrow> ?pv \<le> score s2 ! k"
        using qsort_range_pred [OF a, where P = "\<lambda>x. ?pv \<le> x"] high1' by simp
      have low2: "\<forall>k. unat lo \<le> k \<and> k \<le> unat p \<longrightarrow> score s2 ! k \<le> ?pv"
        using qsort_frame [OF a] low1 sp by simp
      have sorted2: "\<forall>a b. unat (p + 1) \<le> a \<and> a \<le> b \<and> b \<le> unat hi \<longrightarrow> score s2 ! a \<le> score s2 ! b"
        using "1.IH"(3) [OF True part refl right a nh [OF high1']] .
      have same: "\<And>k. unat (p + 1) \<le> k \<Longrightarrow> score s' ! k = score s2 ! k"
        using qsort_frame [OF b] sp by simp
      have f1: "\<forall>k. unat lo \<le> k \<and> k \<le> unat p \<longrightarrow> score s' ! k \<le> ?pv"
        using qsort_range_pred [OF b, where P = "\<lambda>x. x \<le> ?pv"] low2 by simp
      have f2: "\<forall>k. unat (p + 1) \<le> k \<and> k \<le> unat hi \<longrightarrow> ?pv \<le> score s' ! k"
        using high2 same by simp
      have f3: "\<forall>a b. unat lo \<le> a \<and> a \<le> b \<and> b \<le> unat p \<longrightarrow> score s' ! a \<le> score s' ! b"
        using "1.IH"(4) [OF True part refl right a b nl [OF low2]] .
      have f4: "\<forall>a b. unat (p + 1) \<le> a \<and> a \<le> b \<and> b \<le> unat hi \<longrightarrow> score s' ! a \<le> score s' ! b"
        using sorted2 same by simp
      show ?thesis using f1 f2 f3 f4 by (intro conjI)
    qed
    show ?thesis
    proof (intro allI impI)
      fix a b assume ab: "unat lo \<le> a \<and> a \<le> b \<and> b \<le> unat hi"
      consider "b \<le> unat p" | "unat (p + 1) \<le> a" | "a \<le> unat p" "unat (p + 1) \<le> b"
        using sp by linarith
      then show "score s' ! a \<le> score s' ! b"
      proof cases
        case 1 then show ?thesis using fin ab by simp
      next
        case 2 then show ?thesis using fin ab by simp
      next
        case 3
        have "score s' ! a \<le> ?pv" using fin 3 ab by simp
        moreover have "?pv \<le> score s' ! b" using fin 3 ab by simp
        ultimately show ?thesis by (rule double_le_trans)
      qed
    qed
  qed
qed

lemma exchange_mset:
  assumes "exchange t a b = Inr t'"
  shows "mset (zip (pool t') (score t')) = mset (zip (pool t) (score t))"
proof -
  let ?z = "zip (pool t) (score t)"
  have e: "score t' = (score t)[unat a := score t ! unat b, unat b := score t ! unat a]"
    "pool t' = (pool t)[unat a := pool t ! unat b, unat b := pool t ! unat a]"
    "unat a < length (score t)" "unat b < length (score t)"
    "unat a < length (pool t)" "unat b < length (pool t)"
    using exchange_Inr [OF assms] by (simp_all add: inb_def)
  have "zip (pool t') (score t') = ?z[unat a := ?z ! unat b, unat b := ?z ! unat a]"
    using e by (simp add: zip_update)
  moreover have "mset (?z[unat a := ?z ! unat b, unat b := ?z ! unat a]) = mset ?z"
    using e by (intro mset_swap) simp_all
  ultimately show ?thesis by simp
qed

lemma qsort_mset:
  assumes "qsort s lo hi = Inr s'"
  shows "mset (zip (pool s') (score s')) = mset (zip (pool s) (score s))"
proof (rule qsort_pres [where Q = "\<lambda>t. mset (zip (pool t) (score t)) = mset (zip (pool s) (score s))"
      and L = 0 and H = "unat hi", OF assms])
  fix t a b t'
  assume "mset (zip (pool t) (score t)) = mset (zip (pool s) (score s))"
    and "exchange t a b = Inr t'"
  then show "mset (zip (pool t') (score t')) = mset (zip (pool s) (score s))"
    using exchange_mset by metis
qed simp_all

lemma qsort_shape:
  assumes "qsort s lo hi = Inr s'"
  shows "length (pool s') = length (pool s) \<and> length (score s') = length (score s) \<and>
     reverse s' = reverse s \<and> count_pool s' = count_pool s"
proof (rule qsort_pres [where Q = "\<lambda>t. length (pool t) = length (pool s) \<and>
        length (score t) = length (score s) \<and> reverse t = reverse s \<and> count_pool t = count_pool s"
      and L = 0 and H = "unat hi", OF assms])
  fix t a b t'
  assume "length (pool t) = length (pool s) \<and> length (score t) = length (score s) \<and>
      reverse t = reverse s \<and> count_pool t = count_pool s"
    and "exchange t a b = Inr t'"
  then show "length (pool t') = length (pool s) \<and> length (score t') = length (score s) \<and>
      reverse t' = reverse s \<and> count_pool t' = count_pool s"
    by (auto dest!: exchange_Inr)
qed simp_all

lemma partition_loop_total:
  "length (pool s) = length (score s) \<Longrightarrow>
   inb (score s) (i + 1) \<Longrightarrow> inb (score s) (j - 1) \<Longrightarrow>
   \<exists>k. unat (i + 1) \<le> k \<and> k < length (score s) \<and> \<not> score s ! k < pv \<Longrightarrow>
   \<exists>k. k \<le> unat (j - 1) \<and> \<not> pv < score s ! k \<Longrightarrow>
     \<exists>s' p. partition_loop s pv i j = Inr (s', p)"
proof (induction s pv i j rule: partition_loop.induct)
  case (1 s pivot i j)
  from "1.prems"(4) obtain ku where ku: "unat (i + 1) \<le> ku" "ku < length (score s)"
    "\<not> score s ! ku < pivot" by blast
  from "1.prems"(5) obtain kd where kd: "kd \<le> unat (j - 1)" "\<not> pivot < score s ! kd" by blast
  obtain i' where up: "scan_up (score s) pivot i = Inr i'"
    using scan_up_total [OF "1.prems"(2) ku] by blast
  obtain j' where down: "scan_down (score s) pivot j = Inr j'"
    using scan_down_total [OF "1.prems"(3) kd] by blast
  have U: "inb (score s) i'" "\<not> score s ! unat i' < pivot"
    using scan_up_Inr [OF up] by simp_all
  have D: "inb (score s) j'" "\<not> pivot < score s ! unat j'"
    using scan_down_Inr [OF down] by simp_all
  show ?case
  proof (cases "j' \<le> i'")
    case True
    then show ?thesis using up down by (subst partition_loop.simps) simp
  next
    case False
    have lt: "unat i' < unat j'" using False by (simp add: word_le_nat_alt)
    then have "j' \<noteq> 0" by auto
    then have pj: "unat (j' - 1) = unat j' - 1" by (rule unat_pred)
    have si: "unat (i' + 1) = Suc (unat i')" using U(1) by (rule inb_unat_Suc)
    have "inb (pool s) i'" "inb (pool s) j'"
      using U(1) D(1) "1.prems"(1) by (simp_all add: inb_def)
    then obtain s1 where ex: "exchange s i' j' = Inr s1"
      using U(1) D(1) by (simp add: exchange_def Let_def)
    have E: "score s1 = (score s)[unat i' := score s ! unat j', unat j' := score s ! unat i']"
      "pool s1 = (pool s)[unat i' := pool s ! unat j', unat j' := pool s ! unat i']"
      using exchange_Inr [OF ex] by simp_all
    have len: "unat i' < length (score s)" "unat j' < length (score s)"
      "length (score s) < 2 ^ 32"
      using U(1) D(1) by (simp_all add: inb_def)
    have q1: "length (pool s1) = length (score s1)" using E "1.prems"(1) by simp
    have q2: "inb (score s1) (i' + 1)" using E si lt len by (simp add: inb_def)
    have q3: "inb (score s1) (j' - 1)" using E pj lt len by (simp add: inb_def)
    have q4: "\<exists>k. unat (i' + 1) \<le> k \<and> k < length (score s1) \<and> \<not> score s1 ! k < pivot"
      using E si lt len U(2) by (intro exI [of _ "unat j'"]) simp
    have q5: "\<exists>k. k \<le> unat (j' - 1) \<and> \<not> pivot < score s1 ! k"
      using E pj lt len D(2) by (intro exI [of _ "unat i'"]) simp
    have "\<exists>s' p. partition_loop s1 pivot i' j' = Inr (s', p)"
      using "1.IH" [OF up down False ex q1 q2 q3 q4 q5] .
    then show ?thesis using up down False ex by (subst partition_loop.simps) simp
  qed
qed

lemma partition_pool_total:
  assumes "length (pool s) = length (score s)" and "unat lo \<le> unat hi" and "inb (score s) hi"
  shows "\<exists>s' p. partition_pool s lo hi = Inr (s', p)"
proof -
  have lo: "inb (score s) lo" using assms(2,3) by (simp add: inb_def)
  have "\<exists>s' p. partition_loop s (score s ! unat lo) (lo - 1) (hi + 1) = Inr (s', p)"
  proof (rule partition_loop_total [OF assms(1)])
    show "inb (score s) (lo - 1 + 1)" using lo by simp
    show "inb (score s) (hi + 1 - 1)" using assms(3) by simp
    show "\<exists>k. unat (lo - 1 + 1) \<le> k \<and> k < length (score s) \<and> \<not> score s ! k < score s ! unat lo"
      using lo by (intro exI [of _ "unat lo"]) (simp add: inb_def)
    show "\<exists>k. k \<le> unat (hi + 1 - 1) \<and> \<not> score s ! unat lo < score s ! k"
      using assms(2) by (intro exI [of _ "unat lo"]) simp
  qed
  then show ?thesis using lo by (simp add: partition_pool_def Let_def)
qed

lemma partition_pool_shape:
  assumes "partition_pool s lo hi = Inr (s', p)"
  shows "length (pool s') = length (pool s) \<and> length (score s') = length (score s)"
proof (rule partition_pool_pres [where Q = "\<lambda>t. length (pool t) = length (pool s) \<and>
        length (score t) = length (score s)" and L = 0 and H = "unat hi", OF assms])
  fix t a b t'
  assume "length (pool t) = length (pool s) \<and> length (score t) = length (score s)"
    and "exchange t a b = Inr t'"
  then show "length (pool t') = length (pool s) \<and> length (score t') = length (score s)"
    by (auto dest!: exchange_Inr)
qed simp_all

lemma qsort_total:
  "length (pool s) = length (score s) \<Longrightarrow> (lo < hi \<longrightarrow> inb (score s) hi) \<Longrightarrow>
     \<exists>s'. qsort s lo hi = Inr s'"
proof (induction s lo hi rule: qsort.induct)
  case (1 s lo hi)
  show ?case
  proof (cases "lo < hi")
    case False
    then show ?thesis by (subst qsort.simps) simp
  next
    case True
    then have hi: "inb (score s) hi" and lh: "unat lo \<le> unat hi"
      using "1.prems"(2) by (simp_all add: word_less_nat_alt)
    obtain s1 p where part: "partition_pool s lo hi = Inr (s1, p)"
      using partition_pool_total [OF "1.prems"(1) lh hi] by blast
    have bnd: "unat lo \<le> unat p" "unat p < unat hi"
      using partition_pool_spec [OF part True] by simp_all
    have sh1: "length (pool s1) = length (pool s)" "length (score s1) = length (score s)"
      using partition_pool_shape [OF part] by simp_all
    have l1: "length (pool s1) = length (score s1)" using sh1 "1.prems"(1) by simp
    have inp: "\<And>t. length (score t) = length (score s) \<Longrightarrow> inb (score t) p"
      and inh: "\<And>t. length (score t) = length (score s) \<Longrightarrow> inb (score t) hi"
      using hi bnd by (simp_all add: inb_def)
    show ?thesis
    proof (cases "p - lo < hi - (p + 1)")
      case left: True
      obtain s2 where a: "qsort s1 lo p = Inr s2"
        using "1.IH"(1) [OF True part refl left l1] inp [OF sh1(2)] by blast
      have sh2: "length (pool s2) = length (score s2)" "length (score s2) = length (score s)"
        using qsort_shape [OF a] l1 sh1 by simp_all
      obtain s3 where b: "qsort s2 (p + 1) hi = Inr s3"
        using "1.IH"(2) [OF True part refl left a sh2(1)] inh [OF sh2(2)] by blast
      show ?thesis using True part left a b by (subst qsort.simps) simp
    next
      case right: False
      obtain s2 where a: "qsort s1 (p + 1) hi = Inr s2"
        using "1.IH"(3) [OF True part refl right l1] inh [OF sh1(2)] by blast
      have sh2: "length (pool s2) = length (score s2)" "length (score s2) = length (score s)"
        using qsort_shape [OF a] l1 sh1 by simp_all
      obtain s3 where b: "qsort s2 lo p = Inr s3"
        using "1.IH"(4) [OF True part refl right a sh2(1)] inp [OF sh2(2)] by blast
      show ?thesis using True part right a b by (subst qsort.simps) simp
    qed
  qed
qed

section \<open>Evaluation\<close>

lemma Trivial_allocated:
  "length p = unat pSize \<Longrightarrow> length sc = unat pSize \<Longrightarrow> allocated (Trivial pSize p sc)"
  by (simp add: allocated_def Trivial_def)

lemma evaluate_loop_allocated:
  "allocated s \<Longrightarrow> unat i \<le> unat (count_pool s) \<Longrightarrow>
     evaluate_loop ev s i =
       Inr (s\<lparr>score := take (unat i) (score s) @ map ev (drop (unat i) (pool s))\<rparr>)"
proof (induction ev s i rule: evaluate_loop.induct)
  case (1 ev s i)
  show ?case
  proof (cases "i < count_pool s")
    case False
    then have "unat i = unat (count_pool s)"
      using "1.prems"(2) by (simp add: word_less_nat_alt)
    then have "take (unat i) (score s) @ map ev (drop (unat i) (pool s)) = score s"
      using "1.prems"(1) by (simp add: allocated_def)
    then show ?thesis using False by (subst evaluate_loop.simps) simp
  next
    case True
    then have lt: "unat i < unat (count_pool s)" by (simp add: word_less_nat_alt)
    have si: "unat (i + 1) = Suc (unat i)" using lt by (rule unat_Suc_below)
    have c32: "unat (count_pool s) < 2 ^ 32" using unsigned_less [of "count_pool s"] by simp
    have b: "inb (pool s) i \<and> inb (score s) i"
      using "1.prems"(1) lt c32 by (simp add: allocated_def inb_def)
    let ?s1 = "s\<lparr>score := (score s)[unat i := ev (pool s ! unat i)]\<rparr>"
    have a1: "allocated ?s1" using "1.prems"(1) by (simp add: allocated_def)
    have le1: "unat (i + 1) \<le> unat (count_pool ?s1)" using si lt by simp
    have ih: "evaluate_loop ev ?s1 (i + 1) =
        Inr (?s1\<lparr>score := take (unat (i + 1)) (score ?s1) @ map ev (drop (unat (i + 1)) (pool ?s1))\<rparr>)"
      using "1.IH" [OF True b a1 le1] .
    have li: "unat i < length (score s)" "unat i < length (pool s)"
      using b by (simp_all add: inb_def)
    have "take (Suc (unat i)) ((score s)[unat i := ev (pool s ! unat i)]) @
          map ev (drop (Suc (unat i)) (pool s)) =
          take (unat i) (score s) @ map ev (drop (unat i) (pool s))"
      using li by (simp add: take_Suc_conv_app_nth Cons_nth_drop_Suc [symmetric])
    then show ?thesis using True b ih si by (subst evaluate_loop.simps) simp
  qed
qed

lemma evaluate_loop_map:
  "allocated s \<Longrightarrow> evaluate_loop ev s 0 = Inr (s\<lparr>score := map ev (pool s)\<rparr>)"
  using evaluate_loop_allocated [of s 0 ev] by simp

lemma evaluate_Inr:
  assumes al: "allocated s" and ev: "evaluate ev s = Inr (s', m)"
  shows "mset (zip (pool s') (score s')) = mset (zip (pool s) (map ev (pool s))) \<and>
     allocated s' \<and> count_pool s' = count_pool s \<and> reverse s' = reverse s \<and>
     0 < count_pool s \<and> m = score s' ! 0"
proof -
  let ?s1 = "s\<lparr>score := map ev (pool s)\<rparr>"
  let ?hi = "count_pool s - 1"
  have l: "evaluate_loop ev s 0 = Inr ?s1" using al by (rule evaluate_loop_map)
  from ev l have q: "qsort ?s1 0 ?hi = Inr s'" and z: "inb (score s') 0" and m: "m = score s' ! 0"
    by (auto simp: evaluate_def split: sum.splits if_splits)
  have sh: "length (pool s') = length (pool ?s1)" "length (score s') = length (score ?s1)"
    "reverse s' = reverse ?s1" "count_pool s' = count_pool ?s1"
    using qsort_shape [OF q] by simp_all
  have al': "allocated s'" using al sh by (simp add: allocated_def)
  have "length (score s') = unat (count_pool s)" using al' sh by (simp add: allocated_def)
  moreover have "unat (0 :: uint) < length (score s')" using z by (simp only: inb_def)
  ultimately have pos: "0 < unat (count_pool s)" by simp
  then have nz: "count_pool s \<noteq> 0" by auto
  have "mset (zip (pool s') (score s')) = mset (zip (pool s) (map ev (pool s)))"
    using qsort_mset [OF q] by simp
  moreover have "0 < count_pool s" using nz by (simp add: word_greater_zero_iff)
  ultimately show ?thesis using al' sh m by simp
qed

lemma evaluate_sorted:
  assumes al: "allocated s" and ev: "evaluate ev s = Inr (s', m)"
    and nn: "\<forall>h \<in> set (pool s). ev h \<noteq> NaN"
  shows "\<forall>a b. a \<le> b \<and> b < length (score s') \<longrightarrow> score s' ! a \<le> score s' ! b"
proof -
  let ?s1 = "s\<lparr>score := map ev (pool s)\<rparr>"
  let ?hi = "count_pool s - 1"
  have l: "evaluate_loop ev s 0 = Inr ?s1" using al by (rule evaluate_loop_map)
  from ev l have q: "qsort ?s1 0 ?hi = Inr s'"
    by (auto simp: evaluate_def split: sum.splits if_splits)
  have len: "length (score s') = unat (count_pool s)"
    using qsort_shape [OF q] al by (simp add: allocated_def)
  have "0 < count_pool s" using evaluate_Inr [OF al ev] by simp
  then have nz: "count_pool s \<noteq> 0" by auto
  then have hi: "unat ?hi = unat (count_pool s) - 1" by (rule unat_pred)
  have pos: "0 < unat (count_pool s)" using nz by (simp add: unat_gt_0)
  have "\<forall>k. unat (0 :: uint) \<le> k \<and> k \<le> unat ?hi \<longrightarrow> score ?s1 ! k \<noteq> NaN"
  proof (intro allI impI)
    fix k assume "unat (0 :: uint) \<le> k \<and> k \<le> unat ?hi"
    then have k: "k < length (pool s)" using hi pos al by (simp add: allocated_def)
    then have "pool s ! k \<in> set (pool s)" by simp
    then show "score ?s1 ! k \<noteq> NaN" using nn k by simp
  qed
  then have srt: "\<forall>a b. unat (0 :: uint) \<le> a \<and> a \<le> b \<and> b \<le> unat ?hi \<longrightarrow>
      score s' ! a \<le> score s' ! b"
    by (rule qsort_sorted [OF q])
  show ?thesis
  proof (intro allI impI)
    fix a b assume ab: "a \<le> b \<and> b < length (score s')"
    then have "b \<le> unat ?hi" using hi len by auto
    then show "score s' ! a \<le> score s' ! b" using srt ab by simp
  qed
qed

lemma evaluate_total:
  assumes al: "allocated s" and pos: "0 < count_pool s"
  shows "\<exists>s' m. evaluate ev s = Inr (s', m)"
proof -
  let ?s1 = "s\<lparr>score := map ev (pool s)\<rparr>"
  let ?hi = "count_pool s - 1"
  have l: "evaluate_loop ev s 0 = Inr ?s1" using al by (rule evaluate_loop_map)
  have nz: "count_pool s \<noteq> 0" using pos by auto
  then have hi: "unat ?hi = unat (count_pool s) - 1" by (rule unat_pred)
  have p: "0 < unat (count_pool s)" using pos by (simp add: word_less_nat_alt)
  have c32: "unat (count_pool s) < 2 ^ 32" using unsigned_less [of "count_pool s"] by simp
  have len: "length (pool ?s1) = length (score ?s1)" by simp
  have inb_hi: "inb (score ?s1) ?hi" using al hi p c32 by (simp add: inb_def allocated_def)
  obtain s' where q: "qsort ?s1 0 ?hi = Inr s'"
    using qsort_total [OF len, of 0 ?hi] inb_hi by blast
  have "length (score s') = length (score ?s1)" using qsort_shape [OF q] by simp
  then have "inb (score s') 0" using al p c32 by (simp add: inb_def allocated_def)
  then show ?thesis using l q by (simp add: evaluate_def)
qed

lemma evaluate_empty_pool:
  assumes "allocated s" and "count_pool s = 0"
  shows "evaluate ev s = Inl OutOfBounds"
proof -
  have l: "evaluate_loop ev s 0 = Inr s"
    using assms(2) by (subst evaluate_loop.simps) simp
  have "\<not> inb (score s) 0" using assms by (simp add: inb_def allocated_def)
  then have "partition_pool s 0 (0 - 1) = Inl OutOfBounds" by (simp add: partition_pool_def)
  moreover have "(0 :: uint) < - 1"
    by (simp add: word_less_nat_alt unsigned_minus_1_eq_mask mask_eq_exp_minus_1)
  ultimately have "qsort s 0 (count_pool s - 1) = Inl OutOfBounds"
    using assms(2) by (subst qsort.simps) simp
  then show ?thesis using l by (simp add: evaluate_def)
qed




section \<open>The reverse score board\<close>

lemma reverse_board_Inr:
  "reverse_board s ec i t = Inr (s', t') \<Longrightarrow> unat i \<le> unat ec \<Longrightarrow>
     t' = t + sum_list (drop (unat i) (take (unat ec) (score s))) \<and>
     pool s' = pool s \<and> score s' = score s \<and> count_pool s' = count_pool s \<and>
     length (reverse s') = length (reverse s) \<and>
     (\<forall>k. reverse s' ! k =
        (if 1 \<le> k \<and> k \<le> unat ec - unat i then Some (score s ! (unat ec - k))
         else reverse s ! k))"
proof (induction s ec i t rule: reverse_board.induct)
  case (1 s ec i t)
  show ?case
  proof (cases "i < ec")
    case False
    then have "unat i = unat ec" using "1.prems"(2) by (simp add: word_less_nat_alt)
    moreover from False "1.prems"(1) have "s' = s" "t' = t"
      by (subst (asm) reverse_board.simps, simp)+
    ultimately show ?thesis by simp
  next
    case True
    then have lt: "unat i < unat ec" by (simp add: word_less_nat_alt)
    have si: "unat (i + 1) = Suc (unat i)" using lt by (rule unat_Suc_below)
    have sub: "unat (ec - i) = unat ec - unat i"
      using lt by (simp add: unat_sub word_le_nat_alt)
    let ?s1 = "s\<lparr>reverse := (reverse s)[unat (ec - i) := Some (score s ! unat i)]\<rparr>"
    from True "1.prems"(1) have b: "inb (score s) i \<and> inb (reverse s) (ec - i)"
      by (subst (asm) reverse_board.simps) (simp split: if_splits)
    with True "1.prems"(1) have rec: "reverse_board ?s1 ec (i + 1) (t + score s ! unat i) = Inr (s', t')"
      by (subst (asm) reverse_board.simps) simp
    have le: "unat (i + 1) \<le> unat ec" using si lt by simp
    note ih = "1.IH" [OF True b rec le]
    have li: "unat i < length (score s)" "unat ec - unat i < length (reverse s)"
      using b sub by (simp_all add: inb_def)
    have "unat i < length (take (unat ec) (score s))" using li lt by simp
    from Cons_nth_drop_Suc [OF this, symmetric]
    have "drop (unat i) (take (unat ec) (score s)) =
        score s ! unat i # drop (Suc (unat i)) (take (unat ec) (score s))"
      using lt by simp
    then have tot: "t' = t + sum_list (drop (unat i) (take (unat ec) (score s)))"
      using ih si by (simp add: add.assoc)
    have cells: "\<forall>k. reverse s' ! k =
        (if 1 \<le> k \<and> k \<le> unat ec - unat i then Some (score s ! (unat ec - k))
         else reverse s ! k)"
    proof
      fix k
      have r: "reverse s' ! k =
          (if 1 \<le> k \<and> k \<le> unat ec - Suc (unat i) then Some (score s ! (unat ec - k))
           else reverse ?s1 ! k)"
        using ih si by simp
      show "reverse s' ! k =
        (if 1 \<le> k \<and> k \<le> unat ec - unat i then Some (score s ! (unat ec - k))
         else reverse s ! k)"
      proof (cases "k = unat ec - unat i")
        case True
        then have "reverse ?s1 ! k = Some (score s ! unat i)" using li sub by simp
        moreover have "unat ec - k = unat i" using True lt by simp
        ultimately show ?thesis using r True lt by simp
      next
        case False
        then have "reverse ?s1 ! k = reverse s ! k" using sub by simp
        then show ?thesis using r False by auto
      qed
    qed
    show ?thesis using ih tot cells by simp
  qed
qed

lemma reverse_board_total:
  "unat i \<le> unat ec \<Longrightarrow> unat ec < length (score s) \<Longrightarrow> unat ec < length (reverse s) \<Longrightarrow>
   length (score s) < 2 ^ 32 \<Longrightarrow> length (reverse s) < 2 ^ 32 \<Longrightarrow>
     \<exists>s' t'. reverse_board s ec i t = Inr (s', t')"
proof (induction s ec i t rule: reverse_board.induct)
  case (1 s ec i t)
  show ?case
  proof (cases "i < ec")
    case False
    then show ?thesis by (subst reverse_board.simps) simp
  next
    case True
    then have lt: "unat i < unat ec" by (simp add: word_less_nat_alt)
    have si: "unat (i + 1) = Suc (unat i)" using lt by (rule unat_Suc_below)
    have sub: "unat (ec - i) = unat ec - unat i"
      using lt by (simp add: unat_sub word_le_nat_alt)
    have b: "inb (score s) i \<and> inb (reverse s) (ec - i)"
      using lt sub "1.prems" by (simp add: inb_def)
    let ?s1 = "s\<lparr>reverse := (reverse s)[unat (ec - i) := Some (score s ! unat i)]\<rparr>"
    have "\<exists>s' t'. reverse_board ?s1 ec (i + 1) (t + score s ! unat i) = Inr (s', t')"
      using "1.IH" [OF True b] si lt "1.prems" by simp
    then show ?thesis using True b by (subst reverse_board.simps) simp
  qed
qed

lemma reverse_board_overrun:
  assumes "allocated s" and "0 < count_pool s" and "count_pool s \<le> ec"
  shows "inb (score s) 0 \<and> \<not> inb (reverse s) (ec - 0) \<and>
     reverse_board s ec 0 0 = Inl OutOfBounds"
proof -
  have c32: "unat (count_pool s) < 2 ^ 32" using unsigned_less [of "count_pool s"] by simp
  have pos: "0 < unat (count_pool s)" using assms(2) by (simp add: word_less_nat_alt)
  have le: "unat (count_pool s) \<le> unat ec" using assms(3) by (simp add: word_le_nat_alt)
  have a: "inb (score s) 0" using assms(1) pos c32 by (simp add: inb_def allocated_def)
  have b: "\<not> inb (reverse s) (ec - 0)" using assms(1) le by (simp add: inb_def allocated_def)
  have "0 < ec" using pos le by (simp add: word_less_nat_alt)
  then have "reverse_board s ec 0 0 = Inl OutOfBounds"
    using b by (subst reverse_board.simps) simp
  then show ?thesis using a b by simp
qed

section \<open>Recombination\<close>

lemma mutate_cascade:
  "length us = Suc (length others) \<Longrightarrow>
   (\<forall>k < length others. us ! k = dist' (drawn r + k)) \<Longrightarrow>
     \<exists>c < Suc (length others).
        (\<forall>k < c. \<not> us ! k < threshold ((mutator # others) ! k)) \<and>
        (us ! c < threshold ((mutator # others) ! c) \<or> c = length others) \<and>
        mutate dist' s total' pos cnt mutator others r =
          mutator_call s total' pos cnt ((mutator # others) ! c)
            (r\<lparr>drawn := drawn r + min (Suc c) (length others)\<rparr>)"
proof (induction others arbitrary: mutator r us)
  case Nil
  show ?case by (intro exI [of _ 0]) simp
next
  case (Cons m others)
  show ?case
  proof (cases "dist' (drawn r) < threshold mutator")
    case True
    have "us ! 0 = dist' (drawn r)" using Cons.prems(2) by force
    then show ?thesis using True by (intro exI [of _ 0]) (simp add: Let_def)
  next
    case False
    let ?r = "r\<lparr>drawn := Suc (drawn r)\<rparr>"
    have u0: "us ! 0 = dist' (drawn r)" using Cons.prems(2) by force
    obtain u us' where us: "us = u # us'" using Cons.prems(1) by (cases us) auto
    have l: "length us' = Suc (length others)" using Cons.prems(1) us by simp
    have d: "\<forall>k < length others. us' ! k = dist' (drawn ?r + k)"
    proof (intro allI impI)
      fix k assume "k < length others"
      then have "us ! Suc k = dist' (drawn r + Suc k)" using Cons.prems(2) by simp
      then show "us' ! k = dist' (drawn ?r + k)" using us by simp
    qed
    from Cons.IH [OF l d, of m] obtain c where c: "c < Suc (length others)"
      "\<forall>k < c. \<not> us' ! k < threshold ((m # others) ! k)"
      "us' ! c < threshold ((m # others) ! c) \<or> c = length others"
      "mutate dist' s total' pos cnt m others ?r =
          mutator_call s total' pos cnt ((m # others) ! c)
            (?r\<lparr>drawn := drawn ?r + min (Suc c) (length others)\<rparr>)"
      by blast
    have before: "\<forall>k < Suc c. \<not> us ! k < threshold ((mutator # m # others) ! k)"
    proof (intro allI impI)
      fix k assume k: "k < Suc c"
      show "\<not> us ! k < threshold ((mutator # m # others) ! k)"
      proof (cases k)
        case 0 then show ?thesis using False u0 by simp
      next
        case (Suc j) then show ?thesis using c(2) k us by simp
      qed
    qed
    show ?thesis
    proof (intro exI [of _ "Suc c"] conjI)
      show "Suc c < Suc (length (m # others))" using c(1) by simp
      show "\<forall>k < Suc c. \<not> us ! k < threshold ((mutator # m # others) ! k)" by (rule before)
      show "us ! Suc c < threshold ((mutator # m # others) ! Suc c) \<or> Suc c = length (m # others)"
        using c(3) us by simp
      show "mutate dist' s total' pos cnt mutator (m # others) r =
          mutator_call s total' pos cnt ((mutator # m # others) ! Suc c)
            (r\<lparr>drawn := drawn r + min (Suc (Suc c)) (length (m # others))\<rparr>)"
        using False c(4) by (simp add: Let_def)
    qed
  qed
qed

lemma mutate_calls:
  "inb (pool s) pos \<Longrightarrow>
     \<exists>r'. mutate dist' s total' pos cnt mutator others r = Inr r' \<and>
       calls r' = calls r @ [Mutate (pool s ! unat pos)]"
proof (induction others arbitrary: mutator r)
  case Nil
  then show ?case by (simp add: mutator_call_def)
next
  case (Cons m others)
  show ?case
  proof (cases "dist' (drawn r) < threshold mutator")
    case True
    then show ?thesis using Cons.prems by (simp add: Let_def mutator_call_def)
  next
    case False
    then show ?thesis
      using Cons.IH [OF Cons.prems, of m "r\<lparr>drawn := Suc (drawn r)\<rparr>"] by (simp add: Let_def)
  qed
qed

lemma recycle_calls:
  "length (pool s) = unat (count_pool s) \<Longrightarrow> unat i \<le> unat (count_pool s) \<Longrightarrow>
     \<exists>r'. recycle dist' s total' i ec mutator others r = Inr r' \<and>
       calls r' = calls r @ map (\<lambda>k. Mutate (pool s ! k)) [unat i..<unat (count_pool s)]"
proof (induction dist' s total' i ec mutator others r rule: recycle.induct)
  case (1 dist' s totalScore i eliteCount mutator others r)
  show ?case
  proof (cases "i < count_pool s")
    case False
    then have "unat i = unat (count_pool s)"
      using "1.prems"(2) by (simp add: word_less_nat_alt)
    then show ?thesis using False by (subst recycle.simps) simp
  next
    case True
    then have lt: "unat i < unat (count_pool s)" by (simp add: word_less_nat_alt)
    have si: "unat (i + 1) = Suc (unat i)" using lt by (rule unat_Suc_below)
    have c32: "unat (count_pool s) < 2 ^ 32" using unsigned_less [of "count_pool s"] by simp
    have b: "inb (pool s) i" using lt c32 "1.prems"(1) by (simp add: inb_def)
    obtain r1 where m: "mutate dist' s totalScore i eliteCount mutator others r = Inr r1"
      and c1: "calls r1 = calls r @ [Mutate (pool s ! unat i)]"
      using mutate_calls [OF b] by blast
    have le: "unat (i + 1) \<le> unat (count_pool s)" using si lt by simp
    obtain r' where rec: "recycle dist' s totalScore (i + 1) eliteCount mutator others r1 = Inr r'"
      and c2: "calls r' = calls r1 @ map (\<lambda>k. Mutate (pool s ! k)) [unat (i + 1)..<unat (count_pool s)]"
      using "1.IH" [OF True m "1.prems"(1) le] by blast
    have "[unat i..<unat (count_pool s)] = unat i # [Suc (unat i)..<unat (count_pool s)]"
      using lt by (simp add: upt_conv_Cons)
    then have "calls r' = calls r @ map (\<lambda>k. Mutate (pool s ! k)) [unat i..<unat (count_pool s)]"
      using c1 c2 si by simp
    then show ?thesis using True m rec by (subst recycle.simps) simp
  qed
qed

lemma mutate_first_hit:
  assumes b: "inb (pool s) pos"
  shows "\<exists>c < Suc (length others).
     (\<forall>j < c. \<not> dist' (drawn r + j) < threshold ((mutator # others) ! j)) \<and>
     (dist' (drawn r + c) < threshold ((mutator # others) ! c) \<or> c = length others) \<and>
     mutate dist' s total' pos cnt mutator others r =
       Inr (r\<lparr>drawn := drawn r + min (Suc c) (length others),
              world := mutator_mutate ((mutator # others) ! c) (pool s) (reverse s)
                         total' cnt (pool s ! unat pos) (world r),
              calls := calls r @ [Mutate (pool s ! unat pos)]\<rparr>)"
proof -
  define us where "us = map (\<lambda>j. dist' (drawn r + j)) [0..<Suc (length others)]"
  have l: "length us = Suc (length others)" by (simp add: us_def)
  have u: "\<And>j. j < Suc (length others) \<Longrightarrow> us ! j = dist' (drawn r + j)"
    by (simp del: upt_Suc add: us_def)
  have d: "\<forall>k < length others. us ! k = dist' (drawn r + k)" using u by simp
  from mutate_cascade [OF l d, where mutator = mutator and s = s and total' = total'
      and pos = pos and cnt = cnt]
  obtain c where c: "c < Suc (length others)"
    "\<forall>k < c. \<not> us ! k < threshold ((mutator # others) ! k)"
    "us ! c < threshold ((mutator # others) ! c) \<or> c = length others"
    "mutate dist' s total' pos cnt mutator others r =
          mutator_call s total' pos cnt ((mutator # others) ! c)
            (r\<lparr>drawn := drawn r + min (Suc c) (length others)\<rparr>)"
    by blast
  have c2: "\<forall>j < c. \<not> dist' (drawn r + j) < threshold ((mutator # others) ! j)"
  proof (intro allI impI)
    fix j assume j: "j < c"
    then have "j < Suc (length others)" using c(1) by simp
    then have "us ! j = dist' (drawn r + j)" by (rule u)
    moreover have "\<not> us ! j < threshold ((mutator # others) ! j)"
      using c(2) j by blast
    ultimately show "\<not> dist' (drawn r + j) < threshold ((mutator # others) ! j)"
      by simp
  qed
  have c3: "dist' (drawn r + c) < threshold ((mutator # others) ! c) \<or> c = length others"
    using c(3) u [OF c(1)] by simp
  have "mutate dist' s total' pos cnt mutator others r =
      Inr (r\<lparr>drawn := drawn r + min (Suc c) (length others),
             world := mutator_mutate ((mutator # others) ! c) (pool s) (reverse s)
                        total' cnt (pool s ! unat pos) (world r),
             calls := calls r @ [Mutate (pool s ! unat pos)]\<rparr>)"
    using c(4) b by (simp add: mutator_call_def)
  then show ?thesis using c(1) c2 c3 by blast
qed

lemma unat_add_of_nat:
  "unat i + k < 2 ^ 32 \<Longrightarrow> unat (i + of_nat k :: uint) = unat i + k"
proof -
  assume a: "unat i + k < 2 ^ 32"
  then have k: "unat (of_nat k :: uint) = k" by (simp add: unat_of_nat)
  then have "unat i + unat (of_nat k :: uint) < 2 ^ LENGTH(32)" using a by simp
  then have "unat (i + of_nat k) = unat i + unat (of_nat k :: uint)"
    by (simp only: unat_add_lem)
  then show ?thesis using k by simp
qed

lemma recycle_trace:
  "length (pool s) = unat (count_pool s) \<Longrightarrow> unat i \<le> unat (count_pool s) \<Longrightarrow>
     \<exists>rs. length rs = Suc (unat (count_pool s) - unat i) \<and> rs ! 0 = r \<and>
       recycle dist' s total' i ec mutator others r = Inr (last rs) \<and>
       (\<forall>k < unat (count_pool s) - unat i.
          mutate dist' s total' (i + of_nat k) ec mutator others (rs ! k) = Inr (rs ! Suc k))"
proof (induction dist' s total' i ec mutator others r rule: recycle.induct)
  case (1 dist' s totalScore i eliteCount mutator others r)
  show ?case
  proof (cases "i < count_pool s")
    case False
    then have e: "unat i = unat (count_pool s)"
      using "1.prems"(2) by (simp add: word_less_nat_alt)
    have "recycle dist' s totalScore i eliteCount mutator others r = Inr r"
      using False by (subst recycle.simps) simp
    then show ?thesis using e by (intro exI [of _ "[r]"]) simp
  next
    case True
    then have lt: "unat i < unat (count_pool s)" by (simp add: word_less_nat_alt)
    have si: "unat (i + 1) = Suc (unat i)" using lt by (rule unat_Suc_below)
    have c32: "unat (count_pool s) < 2 ^ 32" using unsigned_less [of "count_pool s"] by simp
    have b: "inb (pool s) i" using lt c32 "1.prems"(1) by (simp add: inb_def)
    obtain r1 where m: "mutate dist' s totalScore i eliteCount mutator others r = Inr r1"
      using mutate_calls [OF b] by blast
    have le: "unat (i + 1) \<le> unat (count_pool s)" using si lt by simp
    obtain rs where len: "length rs = Suc (unat (count_pool s) - unat (i + 1))"
      and r0: "rs ! 0 = r1"
      and rec: "recycle dist' s totalScore (i + 1) eliteCount mutator others r1 = Inr (last rs)"
      and st: "\<forall>k < unat (count_pool s) - unat (i + 1).
          mutate dist' s totalScore (i + 1 + of_nat k) eliteCount mutator others (rs ! k)
            = Inr (rs ! Suc k)"
      using "1.IH" [OF True m "1.prems"(1) le] by blast
    have ne: "rs \<noteq> []" using len by auto
    have a1: "length (r # rs) = Suc (unat (count_pool s) - unat i)" using len si lt by simp
    have a2: "(r # rs) ! 0 = r" by simp
    have a3: "recycle dist' s totalScore i eliteCount mutator others r = Inr (last (r # rs))"
      using True m rec ne by (subst recycle.simps) simp
    have a4: "\<forall>k < unat (count_pool s) - unat i.
          mutate dist' s totalScore (i + of_nat k) eliteCount mutator others ((r # rs) ! k)
            = Inr ((r # rs) ! Suc k)"
    proof (intro allI impI)
      fix k assume k: "k < unat (count_pool s) - unat i"
      show "mutate dist' s totalScore (i + of_nat k) eliteCount mutator others ((r # rs) ! k)
            = Inr ((r # rs) ! Suc k)"
      proof (cases k)
        case 0
        then show ?thesis using m r0 by simp
      next
        case (Suc j)
        then have "j < unat (count_pool s) - unat (i + 1)" using k si by simp
        then have "mutate dist' s totalScore (i + 1 + of_nat j) eliteCount mutator others (rs ! j)
            = Inr (rs ! Suc j)" using st by simp
        moreover have "i + of_nat (Suc j) = i + 1 + of_nat j" by simp
        ultimately show ?thesis using Suc by (simp add: add.assoc)
      qed
    qed
    show ?thesis using a1 a2 a3 a4 by blast
  qed
qed













section \<open>The generation loop\<close>

lemma train_loop_no_budget:
  "train_loop env visitor dist' 0 minErr eliteCount mutator others generation minimum s r =
     Inr (s, r, generation, minimum)"
  by (subst train_loop.simps) simp




section \<open>The selection loop of the example mutators\<close>

text \<open>
  What the loop returns: the least number of weights, counted from \<open>index\<close>, whose sum
  brings \<open>cumulator\<close> to \<open>position\<close> or above, added to \<open>index\<close>.
\<close>

lemma cumulate_Inr:
  "cumulate score' position index cumulator = Inr n \<Longrightarrow>
     unat index \<le> unat n \<and>
     \<not> cumulator + sum_list (map the (take (unat n - unat index) (drop (unat index) score')))
         < position \<and>
     (\<forall>m < unat n - unat index.
        cumulator + sum_list (map the (take m (drop (unat index) score'))) < position)"
proof (induction score' position index cumulator rule: cumulate.induct)
  case (1 score' position index cumulator)
  show ?case
  proof (cases "cumulator < position")
    case False
    with "1.prems" have "n = index" by (subst (asm) cumulate.simps) simp
    then show ?thesis using False by simp
  next
    case True
    with "1.prems" have b: "inb score' index"
      by (subst (asm) cumulate.simps) (simp split: if_splits)
    with True "1.prems" obtain x where x: "score' ! unat index = Some x"
      and rec: "cumulate score' position (index + 1) (cumulator + x) = Inr n"
      by (subst (asm) cumulate.simps) (auto split: option.splits)
    have si: "unat (index + 1) = Suc (unat index)" using b by (rule inb_unat_Suc)
    have li: "unat index < length score'" using b by (simp add: inb_def)
    note ih = "1.IH" [OF True b x rec]
    have le: "Suc (unat index) \<le> unat n" using ih si by simp
    have d: "drop (unat index) score' = Some x # drop (Suc (unat index)) score'"
      using Cons_nth_drop_Suc [OF li] x by simp
    obtain k where k: "unat n - unat index = Suc k" "unat n - Suc (unat index) = k"
      using le by (metis Suc_diff_le diff_Suc_Suc)
    have a: "\<not> cumulator + sum_list (map the (take (unat n - unat index)
        (drop (unat index) score'))) < position"
      using ih si d k by (simp add: add.assoc)
    have c: "\<forall>m < unat n - unat index.
        cumulator + sum_list (map the (take m (drop (unat index) score'))) < position"
    proof (intro allI impI)
      fix m assume m: "m < unat n - unat index"
      show "cumulator + sum_list (map the (take m (drop (unat index) score'))) < position"
      proof (cases m)
        case 0
        then show ?thesis using True by simp
      next
        case (Suc j)
        then have "j < unat n - unat (index + 1)" using m si k by simp
        then have "cumulator + x + sum_list (map the (take j (drop (unat (index + 1)) score')))
            < position"
          using ih by simp
        then show ?thesis using Suc d si by (simp add: add.assoc)
      qed
    qed
    show ?thesis using le a c by simp
  qed
qed

section \<open>Evaluating the examples\<close>

lemmas sort_simps = evaluate_def evaluate_loop.simps qsort.simps partition_pool_def
  partition_loop.simps scan_up.simps scan_down.simps exchange_def inb_def Let_def
  word_le_nat_alt word_less_nat_alt

lemmas run_simps = train_def to_unsigned_def train_loop.simps new_pool_def reverse_board.simps
  recycle.simps mutator_call_def store_clones.simps evaluate_def evaluate_loop.simps qsort.simps
  partition_pool_def partition_loop.simps scan_up.simps scan_down.simps exchange_def inb_def
  Let_def Trivial_def example_env_def example_world_def halve_def copy_def observed_def
  word_le_nat_alt word_less_nat_alt zero_double_def



lemma example_pool_allocated: "allocated example_pool"
  by (simp add: allocated_def example_pool_def)

lemma example_ranked_allocated: "allocated example_ranked"
  by (simp add: allocated_def example_ranked_def)

lemma example_pool_evaluate:
  "evaluate example_scores example_pool = Inr (example_ranked, Fin 1)"
  by (simp add: sort_simps example_pool_def example_scores_def example_ranked_def)






section \<open>The claims\<close>

text \<open>
  Claim C1. After every evaluation pass the ranking step restores the ascending order:
  \<open>scores[i] \<le> scores[i+1]\<close> for all adjacent valid indices, and the handles are permuted
  in lockstep with the scores, so the pairs (handle, score) after sorting are a
  permutation of the pairs the evaluation produced and \<open>pool[i]\<close> still corresponds to
  \<open>scores[i]\<close>.

  The order is not restored when a candidate scores NaN. Every comparison with NaN is
  false, so both inner loops of \<^verbatim>\<open>partition\<close> stop at a NaN and it is exchanged like a
  score equal to the pivot. With three candidates scoring 2, NaN and 1 the pass leaves the
  scores NaN, 1, 2 and returns NaN: the first adjacent pair does not ascend.
\<close>

theorem evaluate_ranks_nan_first:
  "allocated nan_pool \<and>
   map nan_scores (pool nan_pool) = [Fin 2, NaN, Fin 1] \<and>
   evaluate nan_scores nan_pool = Inr (nan_ranked, NaN) \<and>
   score nan_ranked = [NaN, Fin 1, Fin 2] \<and>
   \<not> score nan_ranked ! 0 \<le> score nan_ranked ! 1"
  by (simp add: sort_simps allocated_def nan_pool_def nan_scores_def nan_ranked_def)

text \<open>
  Claim C1, amended. For an engine as the constructor builds it: a pass over a pool of at
  least one candidate returns; and whenever a pass returns, the pairs (handle, score) are
  a permutation of the evaluated pairs, every score is the score of the handle beside it,
  the value returned is \<open>scores[0]\<close>, and, if no candidate of the pool scores NaN, the
  scores ascend: \<open>scores[i] \<le> scores[i+1]\<close> for all adjacent valid indices, and so
  \<open>scores[a] \<le> scores[b]\<close> for all valid \<open>a \<le> b\<close>. (With a pool count of 0 the pass reads
  \<^verbatim>\<open>_score[0]\<close> of an empty array: \<open>evaluate_empty_pool\<close>.)
\<close>

theorem evaluate_restores_ranking:
  assumes "allocated s"
  shows "(0 < count_pool s \<longrightarrow> (\<exists>s' m. evaluate ev s = Inr (s', m))) \<and>
     (\<forall>s' m. evaluate ev s = Inr (s', m) \<longrightarrow>
        ((\<forall>h \<in> set (pool s). ev h \<noteq> NaN) \<longrightarrow>
           (\<forall>i. Suc i < length (score s') \<longrightarrow> score s' ! i \<le> score s' ! Suc i) \<and>
           (\<forall>a b. a \<le> b \<and> b < length (score s') \<longrightarrow> score s' ! a \<le> score s' ! b)) \<and>
        mset (zip (pool s') (score s')) = mset (zip (pool s) (map ev (pool s))) \<and>
        length (pool s') = length (pool s) \<and> length (score s') = length (pool s') \<and>
        (\<forall>i < length (pool s'). score s' ! i = ev (pool s' ! i)) \<and>
        m = score s' ! 0)"
proof (intro conjI impI allI)
  assume "0 < count_pool s"
  with assms show "\<exists>s' m. evaluate ev s = Inr (s', m)" by (rule evaluate_total)
next
  fix s' m assume e: "evaluate ev s = Inr (s', m)"
  note r = evaluate_Inr [OF assms e]
  have al': "allocated s'" and cnt: "count_pool s' = count_pool s" using r by simp_all
  have ms: "mset (zip (pool s') (score s')) = mset (zip (pool s) (map ev (pool s)))"
    using r by simp
  show "mset (zip (pool s') (score s')) = mset (zip (pool s) (map ev (pool s)))" by (rule ms)
  show "length (pool s') = length (pool s)" using al' cnt assms by (simp add: allocated_def)
  show "length (score s') = length (pool s')" using al' by (simp add: allocated_def)
  show "m = score s' ! 0" using r by simp
  { fix i assume i: "i < length (pool s')"
    have "(pool s' ! i, score s' ! i) \<in> set (zip (pool s') (score s'))"
      using i al' by (auto simp: set_zip allocated_def)
    then have "(pool s' ! i, score s' ! i) \<in> set (zip (pool s) (map ev (pool s)))"
      using ms by (metis set_mset_mset)
    then show "score s' ! i = ev (pool s' ! i)" by (auto simp: set_zip) }
  { assume nn: "\<forall>h \<in> set (pool s). ev h \<noteq> NaN"
    note mono = evaluate_sorted [OF assms e nn]
    { fix i assume "Suc i < length (score s')"
      then show "score s' ! i \<le> score s' ! Suc i" using mono by simp }
    { fix a b assume "a \<le> b \<and> b < length (score s')"
      then show "score s' ! a \<le> score s' ! b" using mono by simp } }
qed

theorem evaluate_restores_ranking_witness:
  "allocated example_pool \<and> 0 < count_pool example_pool \<and>
   NaN \<notin> set (map example_scores (pool example_pool)) \<and>
   evaluate example_scores example_pool = Inr (example_ranked, Fin 1) \<and>
   score example_ranked ! 0 \<le> score example_ranked ! 1 \<and>
   score example_ranked ! 1 \<le> score example_ranked ! 2 \<and>
   score example_ranked ! 2 \<le> score example_ranked ! 3 \<and>
   mset (zip (pool example_ranked) (score example_ranked)) =
     mset (zip (pool example_pool) (map example_scores (pool example_pool))) \<and>
   score example_ranked ! 3 = example_scores (pool example_ranked ! 3)"
proof -
  have p: "0 < count_pool example_pool" by (simp add: example_pool_def)
  have n: "\<forall>h \<in> set (pool example_pool). example_scores h \<noteq> NaN"
    by (simp add: example_pool_def example_scores_def)
  have n': "NaN \<notin> set (map example_scores (pool example_pool))"
    by (simp add: example_pool_def example_scores_def)
  have l: "length (score example_ranked) = 4" "length (pool example_ranked) = 4"
    by (simp_all add: example_ranked_def)
  note t = evaluate_restores_ranking [OF example_pool_allocated, of example_scores]
  from t example_pool_evaluate n
  have a: "\<forall>i. Suc i < length (score example_ranked) \<longrightarrow>
      score example_ranked ! i \<le> score example_ranked ! Suc i"
    and b: "mset (zip (pool example_ranked) (score example_ranked)) =
     mset (zip (pool example_pool) (map example_scores (pool example_pool)))"
    and c: "\<forall>i < length (pool example_ranked).
      score example_ranked ! i = example_scores (pool example_ranked ! i)"
    by blast+
  have a0: "score example_ranked ! 0 \<le> score example_ranked ! 1"
    using a [rule_format, of 0] l by simp
  have a1: "score example_ranked ! 1 \<le> score example_ranked ! 2"
    using a [rule_format, of 1] l by (simp add: numeral_2_eq_2)
  have a2: "score example_ranked ! 2 \<le> score example_ranked ! 3"
    using a [rule_format, of 2] l by (simp add: numeral_3_eq_3 numeral_2_eq_2)
  have c3: "score example_ranked ! 3 = example_scores (pool example_ranked ! 3)"
    using c l by simp
  show ?thesis
    using example_pool_allocated p n' example_pool_evaluate a0 a1 a2 b c3
    by blast
qed

text \<open>
  Claim C2. Calling \<^verbatim>\<open>train\<close> with \<open>maxGenerations = 0\<close> returns \<open>generationsRun = 0\<close> and
  \<open>bestScore\<close> equal to the minimum score of the initial population after one evaluation
  pass, with zero recombination calls.

  The code at this input: a pool of 4 candidates with the scores 3, 1, 2, 1, elite
  fraction 1/2 and \<open>maxGen = 0\<close>. The run reserves, clones the candidates 10 and 11 and
  releases. No candidate is evaluated, \<open>minimum\<close> is returned unassigned, and the two
  candidates handed out are the first two of the unranked pool (scores 3 and 1).
\<close>

theorem train_skips_evaluation:
  "observed (train (Trivial 4 [0, 0, 0, 0] [0, 0, 0, 0]) example_env True (\<lambda>n. 0)
     0 0 (1 / 2) [0, 0] 2 halve [copy] example_world) =
   Inr ([Reserve 4, Clone 10, Clone 11, Release 4], [110, 111], 0, None, 2)"
  by (simp add: run_simps)

text \<open>
  Claim C3. In every generation the elite-weighting buffer and the total elite weight are
  computed from \<open>scores[0, eliteCount)\<close> only: the total is the sum of the elite scores, the
  elite score of rank \<open>i\<close> is written at the reversed position \<open>eliteCount - i\<close>, so the
  positions \<open>1..eliteCount\<close> are written and position 0 is left as it was (uninitialized
  in an engine fresh from the constructor).

  Stated for the elite counts whose writes are in bounds: \<open>eliteCount < count\<close>, or no
  elite at all.
\<close>

theorem reverse_board_from_elite:
  assumes "allocated s" and "eliteCount < count_pool s \<or> eliteCount = 0"
  shows "\<exists>s' totalScore.
     reverse_board s eliteCount 0 0 = Inr (s', totalScore) \<and>
     totalScore = sum_list (take (unat eliteCount) (score s)) \<and>
     (\<forall>i < unat eliteCount. reverse s' ! (unat eliteCount - i) = Some (score s ! i)) \<and>
     reverse s' ! 0 = reverse s ! 0 \<and>
     (\<forall>k > unat eliteCount. reverse s' ! k = reverse s ! k) \<and>
     pool s' = pool s \<and> score s' = score s \<and> count_pool s' = count_pool s"
proof -
  have c32: "unat (count_pool s) < 2 ^ 32" using unsigned_less [of "count_pool s"] by simp
  have "\<exists>s' t'. reverse_board s eliteCount 0 0 = Inr (s', t')"
  proof (cases "eliteCount = 0")
    case True
    then show ?thesis by (subst reverse_board.simps) simp
  next
    case False
    then have "unat eliteCount < unat (count_pool s)"
      using assms(2) by (simp add: word_less_nat_alt)
    then show ?thesis
      using assms(1) c32 by (intro reverse_board_total) (simp_all add: allocated_def)
  qed
  then obtain s' t' where r: "reverse_board s eliteCount 0 0 = Inr (s', t')" by blast
  note p = reverse_board_Inr [OF r]
  have cells: "\<And>k. reverse s' ! k =
        (if 1 \<le> k \<and> k \<le> unat eliteCount then Some (score s ! (unat eliteCount - k))
         else reverse s ! k)"
    using p by simp
  have "\<forall>i < unat eliteCount. reverse s' ! (unat eliteCount - i) = Some (score s ! i)"
  proof (intro allI impI)
    fix i assume i: "i < unat eliteCount"
    then have "1 \<le> unat eliteCount - i \<and> unat eliteCount - i \<le> unat eliteCount" by simp
    then have "reverse s' ! (unat eliteCount - i) =
        Some (score s ! (unat eliteCount - (unat eliteCount - i)))"
      using cells by simp
    then show "reverse s' ! (unat eliteCount - i) = Some (score s ! i)" using i by simp
  qed
  moreover have "reverse s' ! 0 = reverse s ! 0" using cells by simp
  moreover have "\<forall>k > unat eliteCount. reverse s' ! k = reverse s ! k" using cells by simp
  moreover have "t' = sum_list (take (unat eliteCount) (score s))" using p by simp
  ultimately show ?thesis using r p by simp
qed

theorem reverse_board_from_elite_witness:
  "allocated example_ranked \<and> (2 < count_pool example_ranked \<or> (2 :: uint) = 0) \<and>
   reverse_board example_ranked 2 0 0 =
     Inr (example_ranked\<lparr>reverse := [None, Some (Fin 1), Some (Fin 1), None]\<rparr>, Fin 2) \<and>
   Fin 2 = sum_list (take (unat (2 :: uint)) (score example_ranked))"
proof -
  have a: "2 < count_pool example_ranked \<or> (2 :: uint) = 0" by (simp add: example_ranked_def)
  have e: "reverse_board example_ranked 2 0 0 =
     Inr (example_ranked\<lparr>reverse := [None, Some (Fin 1), Some (Fin 1), None]\<rparr>, Fin 2)"
    by (simp add: reverse_board.simps inb_def example_ranked_def zero_double_def)
  show ?thesis
    using reverse_board_from_elite [OF example_ranked_allocated a] example_ranked_allocated a e
    by auto
qed

text \<open>
  Claim C4. For every non-elite slot in \<open>[eliteCount, count)\<close> and every sequence of
  per-strategy uniform draws, the strategy applied to the slot is the first one, in the
  caller's order, whose threshold exceeds its draw; if no threshold exceeds its draw, the
  last strategy is applied unconditionally. So every non-elite slot receives exactly one
  mutate call per generation.

  \<open>us\<close> is any sequence of one draw per strategy that agrees with the values drawn for
  the strategies before the last (the code draws none for the last one), and \<open>c\<close> is the
  strategy applied: no strategy before \<open>c\<close> has a threshold above its draw, and \<open>c\<close> has
  one or is the last. The run that \<open>mutate\<close> returns is the run it was given after that
  one call of strategy \<open>c\<close> on the candidate of the slot.

  The second part is the recycling loop. From any run \<open>r\<close> it returns, passing through
  the runs \<open>rs ! 0 = r\<close>, \<open>rs ! 1\<close>, ..., one step per slot. The step for the slot
  \<open>eliteCount + k\<close> applies one strategy \<open>c\<close>, the first whose threshold exceeds its draw
  or else the last: the world after the step is the world before it changed by that one
  call of \<open>c\<close> on the candidate of the slot, the draws made are counted, and the call is
  recorded. So the mutate calls of the loop are one per slot from \<open>eliteCount\<close> to
  \<open>count - 1\<close>, in order.
\<close>

theorem mutate_cascade_first_hit:
  assumes "allocated s" and "eliteCount \<le> count_pool s"
  shows "(\<forall>pos us r. eliteCount \<le> pos \<and> pos < count_pool s \<and>
            length us = Suc (length others) \<and>
            (\<forall>k < length others. us ! k = dist' (drawn r + k)) \<longrightarrow>
          (\<exists>c < Suc (length others).
             (\<forall>k < c. \<not> us ! k < threshold ((mutator # others) ! k)) \<and>
             (us ! c < threshold ((mutator # others) ! c) \<or> c = length others) \<and>
             mutate dist' s total' pos eliteCount mutator others r =
               Inr (r\<lparr>drawn := drawn r + min (Suc c) (length others),
                       world := mutator_mutate ((mutator # others) ! c) (pool s) (reverse s)
                                  total' eliteCount (pool s ! unat pos) (world r),
                       calls := calls r @ [Mutate (pool s ! unat pos)]\<rparr>))) \<and>
     (\<forall>r. \<exists>rs. length rs = Suc (unat (count_pool s) - unat eliteCount) \<and> rs ! 0 = r \<and>
        recycle dist' s total' eliteCount eliteCount mutator others r = Inr (last rs) \<and>
        (\<forall>k < unat (count_pool s) - unat eliteCount.
           \<exists>c < Suc (length others).
             (\<forall>j < c. \<not> dist' (drawn (rs ! k) + j) < threshold ((mutator # others) ! j)) \<and>
             (dist' (drawn (rs ! k) + c) < threshold ((mutator # others) ! c) \<or>
                c = length others) \<and>
             rs ! Suc k =
               (rs ! k)\<lparr>drawn := drawn (rs ! k) + min (Suc c) (length others),
                  world := mutator_mutate ((mutator # others) ! c) (pool s) (reverse s)
                             total' eliteCount (pool s ! (unat eliteCount + k)) (world (rs ! k)),
                  calls := calls (rs ! k) @ [Mutate (pool s ! (unat eliteCount + k))]\<rparr>) \<and>
        calls (last rs) = calls r @
          map (\<lambda>k. Mutate (pool s ! k)) [unat eliteCount..<unat (count_pool s)])"
proof (intro conjI allI impI)
  fix pos us and r :: "('a, 'b) run"
  assume h: "eliteCount \<le> pos \<and> pos < count_pool s \<and> length us = Suc (length others) \<and>
            (\<forall>k < length others. us ! k = dist' (drawn r + k))"
  have c32: "unat (count_pool s) < 2 ^ 32" using unsigned_less [of "count_pool s"] by simp
  have b: "inb (pool s) pos"
    using h assms(1) c32 by (simp add: inb_def allocated_def word_less_nat_alt)
  from h have l: "length us = Suc (length others)"
    and d: "\<forall>k < length others. us ! k = dist' (drawn r + k)" by simp_all
  from mutate_cascade [OF l d, where mutator = mutator and s = s and total' = total'
      and pos = pos and cnt = eliteCount]
  obtain c where c: "c < Suc (length others)"
    "\<forall>k < c. \<not> us ! k < threshold ((mutator # others) ! k)"
    "us ! c < threshold ((mutator # others) ! c) \<or> c = length others"
    "mutate dist' s total' pos eliteCount mutator others r =
          mutator_call s total' pos eliteCount ((mutator # others) ! c)
            (r\<lparr>drawn := drawn r + min (Suc c) (length others)\<rparr>)"
    by blast
  have "mutate dist' s total' pos eliteCount mutator others r =
      Inr (r\<lparr>drawn := drawn r + min (Suc c) (length others),
             world := mutator_mutate ((mutator # others) ! c) (pool s) (reverse s)
                        total' eliteCount (pool s ! unat pos) (world r),
             calls := calls r @ [Mutate (pool s ! unat pos)]\<rparr>)"
    using c(4) b by (simp add: mutator_call_def)
  then show "\<exists>c < Suc (length others).
             (\<forall>k < c. \<not> us ! k < threshold ((mutator # others) ! k)) \<and>
             (us ! c < threshold ((mutator # others) ! c) \<or> c = length others) \<and>
             mutate dist' s total' pos eliteCount mutator others r =
               Inr (r\<lparr>drawn := drawn r + min (Suc c) (length others),
                       world := mutator_mutate ((mutator # others) ! c) (pool s) (reverse s)
                                  total' eliteCount (pool s ! unat pos) (world r),
                       calls := calls r @ [Mutate (pool s ! unat pos)]\<rparr>)"
    using c(1,2,3) by blast
next
  fix r :: "('a, 'b) run"
  let ?n = "unat (count_pool s) - unat eliteCount"
  have len: "length (pool s) = unat (count_pool s)" using assms(1) by (simp add: allocated_def)
  have le: "unat eliteCount \<le> unat (count_pool s)"
    using assms(2) by (simp add: word_le_nat_alt)
  have c32: "unat (count_pool s) < 2 ^ 32" using unsigned_less [of "count_pool s"] by simp
  obtain rs where l: "length rs = Suc ?n" and r0: "rs ! 0 = r"
    and rec: "recycle dist' s total' eliteCount eliteCount mutator others r = Inr (last rs)"
    and st: "\<forall>k < ?n. mutate dist' s total' (eliteCount + of_nat k) eliteCount mutator others
        (rs ! k) = Inr (rs ! Suc k)"
    using recycle_trace [OF len le] by blast
  obtain r' where rec': "recycle dist' s total' eliteCount eliteCount mutator others r = Inr r'"
    and cl: "calls r' = calls r @
        map (\<lambda>k. Mutate (pool s ! k)) [unat eliteCount..<unat (count_pool s)]"
    using recycle_calls [OF len le] by blast
  have cl': "calls (last rs) = calls r @
        map (\<lambda>k. Mutate (pool s ! k)) [unat eliteCount..<unat (count_pool s)]"
    using rec rec' cl by simp
  have steps: "\<forall>k < ?n.
           \<exists>c < Suc (length others).
             (\<forall>j < c. \<not> dist' (drawn (rs ! k) + j) < threshold ((mutator # others) ! j)) \<and>
             (dist' (drawn (rs ! k) + c) < threshold ((mutator # others) ! c) \<or>
                c = length others) \<and>
             rs ! Suc k =
               (rs ! k)\<lparr>drawn := drawn (rs ! k) + min (Suc c) (length others),
                  world := mutator_mutate ((mutator # others) ! c) (pool s) (reverse s)
                             total' eliteCount (pool s ! (unat eliteCount + k)) (world (rs ! k)),
                  calls := calls (rs ! k) @ [Mutate (pool s ! (unat eliteCount + k))]\<rparr>"
  proof (intro allI impI)
    fix k assume k: "k < ?n"
    let ?pos = "eliteCount + of_nat k"
    have "unat eliteCount + k < 2 ^ 32" using k c32 by simp
    then have up: "unat ?pos = unat eliteCount + k" by (rule unat_add_of_nat)
    have b: "inb (pool s) ?pos" using up k len c32 by (simp add: inb_def)
    from mutate_first_hit [OF b, where dist' = dist' and r = "rs ! k" and mutator = mutator
        and others = others and total' = total' and cnt = eliteCount]
    obtain c where c: "c < Suc (length others)"
      "\<forall>j < c. \<not> dist' (drawn (rs ! k) + j) < threshold ((mutator # others) ! j)"
      "dist' (drawn (rs ! k) + c) < threshold ((mutator # others) ! c) \<or> c = length others"
      "mutate dist' s total' ?pos eliteCount mutator others (rs ! k) =
         Inr ((rs ! k)\<lparr>drawn := drawn (rs ! k) + min (Suc c) (length others),
              world := mutator_mutate ((mutator # others) ! c) (pool s) (reverse s)
                         total' eliteCount (pool s ! unat ?pos) (world (rs ! k)),
              calls := calls (rs ! k) @ [Mutate (pool s ! unat ?pos)]\<rparr>)"
      by blast
    have "mutate dist' s total' ?pos eliteCount mutator others (rs ! k) = Inr (rs ! Suc k)"
      using st k by simp
    then have "rs ! Suc k =
        (rs ! k)\<lparr>drawn := drawn (rs ! k) + min (Suc c) (length others),
              world := mutator_mutate ((mutator # others) ! c) (pool s) (reverse s)
                         total' eliteCount (pool s ! (unat eliteCount + k)) (world (rs ! k)),
              calls := calls (rs ! k) @ [Mutate (pool s ! (unat eliteCount + k))]\<rparr>"
      using c(4) up by simp
    then show "\<exists>c < Suc (length others).
             (\<forall>j < c. \<not> dist' (drawn (rs ! k) + j) < threshold ((mutator # others) ! j)) \<and>
             (dist' (drawn (rs ! k) + c) < threshold ((mutator # others) ! c) \<or>
                c = length others) \<and>
             rs ! Suc k =
               (rs ! k)\<lparr>drawn := drawn (rs ! k) + min (Suc c) (length others),
                  world := mutator_mutate ((mutator # others) ! c) (pool s) (reverse s)
                             total' eliteCount (pool s ! (unat eliteCount + k)) (world (rs ! k)),
                  calls := calls (rs ! k) @ [Mutate (pool s ! (unat eliteCount + k))]\<rparr>"
      using c(1,2,3) by blast
  qed
  show "\<exists>rs. length rs = Suc ?n \<and> rs ! 0 = r \<and>
        recycle dist' s total' eliteCount eliteCount mutator others r = Inr (last rs) \<and>
        (\<forall>k < ?n.
           \<exists>c < Suc (length others).
             (\<forall>j < c. \<not> dist' (drawn (rs ! k) + j) < threshold ((mutator # others) ! j)) \<and>
             (dist' (drawn (rs ! k) + c) < threshold ((mutator # others) ! c) \<or>
                c = length others) \<and>
             rs ! Suc k =
               (rs ! k)\<lparr>drawn := drawn (rs ! k) + min (Suc c) (length others),
                  world := mutator_mutate ((mutator # others) ! c) (pool s) (reverse s)
                             total' eliteCount (pool s ! (unat eliteCount + k)) (world (rs ! k)),
                  calls := calls (rs ! k) @ [Mutate (pool s ! (unat eliteCount + k))]\<rparr>) \<and>
        calls (last rs) = calls r @
          map (\<lambda>k. Mutate (pool s ! k)) [unat eliteCount..<unat (count_pool s)]"
    using l r0 rec steps cl' by blast
qed

theorem mutate_cascade_first_hit_witness:
  "allocated example_ranked \<and> 2 \<le> count_pool example_ranked \<and>
   mutate (\<lambda>n. 1 / 2) example_ranked (Fin 2) 3 2 halve [copy] example_run =
     Inr (example_run\<lparr>drawn := 1,
            world := mutator_mutate copy (pool example_ranked) (reverse example_ranked) (Fin 2) 2
                       10 example_world,
            calls := [Mutate 10]\<rparr>) \<and>
   recycle example_draws example_ranked (Fin 2) 2 2 halve [copy] example_run =
     Inr \<lparr>world = example_world(12 := 1 / 2, 10 := 1), calls = [Mutate 12, Mutate 10],
          drawn = 2\<rparr> \<and>
   (\<exists>rs. length rs = 3 \<and> rs ! 0 = example_run \<and>
      recycle example_draws example_ranked (Fin 2) 2 2 halve [copy] example_run = Inr (last rs) \<and>
      calls (last rs) = [Mutate 12, Mutate 10])"
proof -
  have b: "2 \<le> count_pool example_ranked" by (simp add: example_ranked_def)
  note t = mutate_cascade_first_hit [OF example_ranked_allocated b,
      where dist' = example_draws and total' = "Fin 2" and mutator = halve and others = "[copy]"]
  have m: "mutate (\<lambda>n. 1 / 2) example_ranked (Fin 2) 3 2 halve [copy] example_run =
     Inr (example_run\<lparr>drawn := 1,
            world := mutator_mutate copy (pool example_ranked) (reverse example_ranked) (Fin 2) 2
                       10 example_world,
            calls := [Mutate 10]\<rparr>)"
    by (simp add: mutator_call_def inb_def example_ranked_def example_run_def halve_def copy_def
        Let_def)
  have r: "recycle example_draws example_ranked (Fin 2) 2 2 halve [copy] example_run =
     Inr \<lparr>world = example_world(12 := 1 / 2, 10 := 1), calls = [Mutate 12, Mutate 10],
          drawn = 2\<rparr>"
    by (simp add: recycle.simps mutator_call_def inb_def example_ranked_def example_run_def
        halve_def copy_def Let_def example_draws_def example_world_def word_less_nat_alt)
  have n: "Suc (unat (count_pool example_ranked) - unat (2 :: uint)) = 3"
    by (simp add: example_ranked_def)
  have c: "calls example_run @
      map (\<lambda>k. Mutate (pool example_ranked ! k)) [unat (2 :: uint)..<unat (count_pool example_ranked)]
      = [Mutate 12, Mutate 10]"
    by (simp add: example_run_def example_ranked_def upt_rec)
  from t obtain rs where rs: "length rs = Suc (unat (count_pool example_ranked) - unat (2 :: uint))"
    "rs ! 0 = example_run"
    "recycle example_draws example_ranked (Fin 2) 2 2 halve [copy] example_run = Inr (last rs)"
    "calls (last rs) = calls example_run @
      map (\<lambda>k. Mutate (pool example_ranked ! k)) [unat (2 :: uint)..<unat (count_pool example_ranked)]"
    by blast
  have "\<exists>rs. length rs = 3 \<and> rs ! 0 = example_run \<and>
      recycle example_draws example_ranked (Fin 2) 2 2 halve [copy] example_run = Inr (last rs) \<and>
      calls (last rs) = [Mutate 12, Mutate 10]"
    using rs n c by (intro exI [of _ rs]) simp
  then show ?thesis using example_ranked_allocated b m r by simp
qed

text \<open>
  Claim C5. In the weighted sampling over the elite, for every draw \<open>u\<close> in
  \<open>(0, totalEliteWeight)\<close> and every weight buffer, the parent selected by the
  cumulative-accumulation loop is the first index whose cumulative weight exceeds \<open>u\<close>.

  The code at the weights 1, 1, 1 with the total 3. With the draw 1/6 (position 1/2) the
  cumulative weight exceeds the position at index 0 already, and the loop selects index
  1: it increments \<open>index\<close> together with the addition that ends it. With the draw 5/6
  (position 5/2) the first index is 2 and the loop selects 3, which is no elite position.
\<close>

theorem cumulate_selects_next_index:
  "classic_parent [Some 1, Some 1, Some 1] 3 (1 / 6) = Inr 1 \<and>
   spec_first_exceeding [1, 1, 1] ((1 / 6) * 3) = Some 0 \<and>
   classic_parent [Some 1, Some 1, Some 1] 3 (5 / 6) = Inr 3 \<and>
   spec_first_exceeding [1, 1, 1] ((5 / 6) * 3) = Some 2"
  by (simp add: classic_parent_def cumulate.simps inb_def spec_first_exceeding_def upt_rec)

text \<open>
  Claim C6. In two-parent sampling with an elite of at least 2, whenever the two draws
  select the same index (inside \<open>[0, eliteCount)\<close>), the second index is shifted to
  \<open>index + 1\<close>, or to \<open>index - 1\<close> when \<open>index\<close> is the last elite position, and the two
  parent indices are distinct.
\<close>

theorem mate_parents_distinct:
  assumes "cumulate score' (range1 * total') 0 0 = Inr i"
    and "cumulate score' (range2 * total') 0 0 = Inr i"
    and "i < size'" and "2 \<le> size'"
  shows "mate_parents score' total' size' range1 range2 =
           Inr (i, if i = size' - 1 then i - 1 else i + 1) \<and>
         (if i = size' - 1 then i - 1 else i + 1) \<noteq> i \<and>
         (if i = size' - 1 then i - 1 else i + 1) < size'"
proof -
  have lt: "unat i < unat size'" using assms(3) by (simp add: word_less_nat_alt)
  have two: "2 \<le> unat size'" using assms(4) by (simp add: word_le_nat_alt)
  have nz: "size' \<noteq> 0" using two by auto
  have p1: "unat (size' - 1) = unat size' - 1" using nz by (rule unat_pred)
  have si: "unat (i + 1) = Suc (unat i)" using lt by (rule unat_Suc_below)
  have last_nz: "size' - 1 \<noteq> 0" using p1 two by (auto simp: unat_eq_0 [symmetric] simp del: unat_eq_0)
  have s2: "size' - 2 = size' - 1 - 1" by simp
  have a: "mate_parents score' total' size' range1 range2 =
           Inr (i, if i = size' - 1 then i - 1 else i + 1)"
    using assms(1,2) last_nz s2 by (auto simp: mate_parents_def)
  have b: "(if i = size' - 1 then i - 1 else i + 1) \<noteq> i" by simp
  have c: "(if i = size' - 1 then i - 1 else i + 1) < size'"
  proof (cases "i = size' - 1")
    case True
    then have "i \<noteq> 0" using last_nz by simp
    then have "unat (i - 1) = unat i - 1" by (rule unat_pred)
    then show ?thesis using True lt by (simp add: word_less_nat_alt)
  next
    case False
    then have "unat i \<noteq> unat size' - 1" using p1 by (simp add: word_unat_eq_iff)
    then show ?thesis using False lt si by (simp add: word_less_nat_alt)
  qed
  show ?thesis using a b c by simp
qed

theorem mate_parents_distinct_witness:
  "cumulate [Some 1, Some 1, Some 1] ((1 / 6) * 3) 0 0 = Inr 1 \<and>
   (1 :: uint) < 3 \<and> (2 :: uint) \<le> 3 \<and>
   mate_parents [Some 1, Some 1, Some 1] 3 3 (1 / 6) (1 / 6) = Inr (1, 2)"
proof -
  have a: "cumulate [Some 1, Some 1, Some 1] ((1 / 6) * 3) 0 0 = Inr 1"
    by (simp add: cumulate.simps inb_def)
  have b: "(1 :: uint) < 3" by simp
  have c: "(2 :: uint) \<le> 3" by simp
  show ?thesis using mate_parents_distinct [OF a a b c] a b c by simp
qed







text \<open>
  Claim C9. The recursive partition-exchange sort terminates for every score array and
  every in-bounds range \<open>lo \<le> hi\<close>: the pivot is the first element of the range, so
  \<^verbatim>\<open>partition\<close> returns an index \<open>j\<close> with \<open>lo \<le> j < hi\<close>, and both recursive calls act on
  strictly smaller ranges.

  \<open>qsort\<close> is a total function (its termination proof is above, for every engine state
  and every range); here it returns without leaving the arrays, and the two ranges
  \<open>[lo, j]\<close> and \<open>[j + 1, hi]\<close> are strictly shorter than \<open>[lo, hi]\<close>.
\<close>

theorem qsort_terminates:
  assumes "allocated s" and "lo \<le> hi" and "hi < count_pool s"
  shows "(\<exists>s'. qsort s lo hi = Inr s') \<and>
     (lo < hi \<longrightarrow>
        (\<exists>s1 j. partition_pool s lo hi = Inr (s1, j) \<and> lo \<le> j \<and> j < hi \<and>
           unat j - unat lo < unat hi - unat lo \<and>
           unat hi - unat (j + 1) < unat hi - unat lo))"
proof -
  have len: "length (pool s) = length (score s)" using assms(1) by (simp add: allocated_def)
  have c32: "unat (count_pool s) < 2 ^ 32" using unsigned_less [of "count_pool s"] by simp
  have hi: "inb (score s) hi"
    using assms(1,3) c32 by (simp add: allocated_def inb_def word_less_nat_alt)
  have a: "\<exists>s'. qsort s lo hi = Inr s'" using qsort_total [OF len] hi by blast
  have b: "lo < hi \<longrightarrow>
        (\<exists>s1 j. partition_pool s lo hi = Inr (s1, j) \<and> lo \<le> j \<and> j < hi \<and>
           unat j - unat lo < unat hi - unat lo \<and>
           unat hi - unat (j + 1) < unat hi - unat lo)"
  proof
    assume lt: "lo < hi"
    have "unat lo \<le> unat hi" using assms(2) by (simp add: word_le_nat_alt)
    then obtain s1 j where p: "partition_pool s lo hi = Inr (s1, j)"
      using partition_pool_total [OF len _ hi] by blast
    have "unat lo \<le> unat j \<and> unat j < unat hi" using partition_pool_spec [OF p lt] by simp
    then have "lo \<le> j \<and> j < hi" by (simp add: word_le_nat_alt word_less_nat_alt)
    then show "\<exists>s1 j. partition_pool s lo hi = Inr (s1, j) \<and> lo \<le> j \<and> j < hi \<and>
           unat j - unat lo < unat hi - unat lo \<and>
           unat hi - unat (j + 1) < unat hi - unat lo"
      using p qsort_measure [OF p lt] by blast
  qed
  show ?thesis using a b by (rule conjI)
qed

theorem qsort_terminates_witness:
  "allocated example_pool \<and> (0 :: uint) \<le> 3 \<and> 3 < count_pool example_pool \<and>
   (\<exists>s'. qsort example_pool 0 3 = Inr s') \<and>
   (\<exists>s1 j. partition_pool example_pool 0 3 = Inr (s1, j) \<and> 0 \<le> j \<and> j < 3)"
proof -
  have a: "(0 :: uint) \<le> 3" by simp
  have b: "3 < count_pool example_pool" by (simp add: example_pool_def)
  have c: "(0 :: uint) < 3" by simp
  show ?thesis
    using qsort_terminates [OF example_pool_allocated a b] example_pool_allocated a b c
    by blast
qed

text \<open>
  Claim C10. The weight-buffer construction writes exactly the buffer indices
  \<open>eliteCount - i\<close> for \<open>i\<close> in \<open>[0, eliteCount)\<close>, that is 1 to \<open>eliteCount\<close>; the buffer has
  \<open>count\<close> cells, so every write is in bounds if and only if \<open>eliteCount < count\<close>, and with
  \<open>eliteCount = count\<close> the very first write, at index \<open>eliteCount\<close>, is out of bounds.

  Stated for a pool of at least one candidate, as the construction is only reached after
  an evaluation pass that returned. The loop returns exactly when \<open>eliteCount < count\<close>;
  with \<open>eliteCount = count\<close> the first read of \<^verbatim>\<open>_score\<close> is in bounds and the first write
  of \<^verbatim>\<open>_reverse\<close> is not; and when the loop returns, the cells 1 to \<open>eliteCount\<close> hold the
  elite scores in reverse, every other cell is as it was, and in a buffer that was
  uninitialized the initialized cells are exactly 1 to \<open>eliteCount\<close>.
\<close>

theorem reverse_board_in_bounds_iff:
  assumes "allocated s" and "0 < count_pool s"
  shows "((\<exists>s' totalScore. reverse_board s eliteCount 0 0 = Inr (s', totalScore)) \<longleftrightarrow>
            eliteCount < count_pool s) \<and>
     (eliteCount = count_pool s \<longrightarrow>
        inb (score s) 0 \<and> \<not> inb (reverse s) (eliteCount - 0) \<and>
        reverse_board s eliteCount 0 0 = Inl OutOfBounds) \<and>
     (\<forall>s' totalScore. reverse_board s eliteCount 0 0 = Inr (s', totalScore) \<longrightarrow>
        length (reverse s') = length (reverse s) \<and>
        (\<forall>k. 1 \<le> k \<and> k \<le> unat eliteCount \<longrightarrow>
              reverse s' ! k = Some (score s ! (unat eliteCount - k))) \<and>
        (\<forall>k. \<not> (1 \<le> k \<and> k \<le> unat eliteCount) \<longrightarrow> reverse s' ! k = reverse s ! k) \<and>
        (set (reverse s) \<subseteq> {None} \<longrightarrow>
           {k. k < length (reverse s') \<and> reverse s' ! k \<noteq> None} = {1..unat eliteCount}))"
proof (intro conjI impI allI)
  show "(\<exists>s' totalScore. reverse_board s eliteCount 0 0 = Inr (s', totalScore)) \<longleftrightarrow>
            eliteCount < count_pool s"
  proof
    assume ex: "\<exists>s' totalScore. reverse_board s eliteCount 0 0 = Inr (s', totalScore)"
    show "eliteCount < count_pool s"
    proof (rule ccontr)
      assume "\<not> eliteCount < count_pool s"
      then have "count_pool s \<le> eliteCount" by simp
      then have "reverse_board s eliteCount 0 0 = Inl OutOfBounds"
        using reverse_board_overrun [OF assms] by simp
      then show False using ex by simp
    qed
  next
    assume "eliteCount < count_pool s"
    then have "unat eliteCount < unat (count_pool s)" by (simp add: word_less_nat_alt)
    moreover have "unat (count_pool s) < 2 ^ 32" using unsigned_less [of "count_pool s"] by simp
    ultimately show "\<exists>s' totalScore. reverse_board s eliteCount 0 0 = Inr (s', totalScore)"
      using assms(1) by (intro reverse_board_total) (simp_all add: allocated_def)
  qed
next
  assume "eliteCount = count_pool s"
  then have le: "count_pool s \<le> eliteCount" by simp
  note o = reverse_board_overrun [OF assms le]
  show "inb (score s) 0" using o by simp
  show "\<not> inb (reverse s) (eliteCount - 0)" using o by simp
  show "reverse_board s eliteCount 0 0 = Inl OutOfBounds" using o by simp
next
  fix s' totalScore
  assume r: "reverse_board s eliteCount 0 0 = Inr (s', totalScore)"
  note p = reverse_board_Inr [OF r]
  have cells: "\<And>k. reverse s' ! k =
        (if 1 \<le> k \<and> k \<le> unat eliteCount then Some (score s ! (unat eliteCount - k))
         else reverse s ! k)"
    using p by simp
  have ec: "unat eliteCount < length (reverse s)"
  proof -
    have "eliteCount < count_pool s"
    proof (rule ccontr)
      assume "\<not> eliteCount < count_pool s"
      then have "count_pool s \<le> eliteCount" by simp
      then have "reverse_board s eliteCount 0 0 = Inl OutOfBounds"
        using reverse_board_overrun [OF assms] by simp
      then show False using r by simp
    qed
    then show ?thesis using assms(1) by (simp add: allocated_def word_less_nat_alt)
  qed
  show len: "length (reverse s') = length (reverse s)" using p by simp
  { fix k assume "1 \<le> k \<and> k \<le> unat eliteCount"
    then show "reverse s' ! k = Some (score s ! (unat eliteCount - k))" using cells by simp }
  { fix k assume "\<not> (1 \<le> k \<and> k \<le> unat eliteCount)"
    then show "reverse s' ! k = reverse s ! k" using cells by auto }
  { assume none: "set (reverse s) \<subseteq> {None}"
    have "\<And>k. k < length (reverse s) \<Longrightarrow> reverse s ! k = None"
      using none nth_mem by fastforce
    then show "{k. k < length (reverse s') \<and> reverse s' ! k \<noteq> None} = {1..unat eliteCount}"
      using cells len ec by auto }
qed

theorem reverse_board_in_bounds_iff_witness:
  "allocated example_ranked \<and> 0 < count_pool example_ranked \<and>
   2 < count_pool example_ranked \<and>
   (\<exists>s' totalScore. reverse_board example_ranked 2 0 0 = Inr (s', totalScore)) \<and>
   reverse_board example_ranked (count_pool example_ranked) 0 0 = Inl OutOfBounds"
proof -
  have p: "0 < count_pool example_ranked" by (simp add: example_ranked_def)
  have a: "2 < count_pool example_ranked" by (simp add: example_ranked_def)
  show ?thesis
    using reverse_board_in_bounds_iff [OF example_ranked_allocated p, of 2]
      reverse_board_in_bounds_iff [OF example_ranked_allocated p, of "count_pool example_ranked"]
      example_ranked_allocated p a
    by blast
qed

end
